theory Spec2Isabelle
  imports Main "HOL-Library.Word" "HOL-Library.Char_ord" "HOL-Library.List_Lexorder"
    "HOL-Library.Sublist"
begin

section \<open>Bytes, blob references and time\<close>

text \<open>
  A Go \<open>[]byte\<close> is a list of 8-bit characters. Keys of the engine are compared bytewise
  (unsigned), which is the lexicographic order of \<open>char list\<close> over the order of
  \<open>char\<close> by code point. \<open>append\<close> is modelled as list concatenation: the sharing of
  backing arrays is below this model.
\<close>

type_synonym bytes = "char list"

text \<open>\<open>blobstore.BlobRef\<close>: the two fields the package reads.\<close>

record BlobRef =
  Namespace :: bytes
  Key :: bytes

text \<open>
  \<open>time.Time\<close>, as far as the package looks at it: \<open>Unix\<close> is the value of
  \<open>t.Unix()\<close>, an \<open>int64\<close> given by its 64 bits (two's complement), and
  \<open>Nanosecond\<close> is the fraction of the second, which \<open>t.Unix()\<close> drops.
\<close>

record Time =
  Unix :: "64 word"
  Nanosecond :: nat

text \<open>\<open>time.Unix(sec, 0)\<close>.\<close>

definition time_Unix :: "64 word \<Rightarrow> Time" where
  "time_Unix s = \<lparr>Unix = s, Nanosecond = 0\<rparr>"

text \<open>\<open>t.Truncate(time.Second)\<close> on the fields above.\<close>

definition Truncate_Second :: "Time \<Rightarrow> Time" where
  "Truncate_Second t = t\<lparr>Nanosecond := 0\<rparr>"

section \<open>encoding/binary, big endian\<close>

text \<open>
  \<open>be_bytes k n\<close> are the \<open>k\<close> low bytes of \<open>n\<close>, most significant first, and
  \<open>be_nat\<close> reads such a sequence back. \<open>binary.BigEndian.AppendUint64\<close> appends
  eight of them; \<open>binary.BigEndian.Uint64\<close> reads the first eight bytes of its argument
  and panics on a shorter one.
\<close>

fun be_bytes :: "nat \<Rightarrow> nat \<Rightarrow> bytes" where
  "be_bytes 0 n = []"
| "be_bytes (Suc k) n = be_bytes k (n div 256) @ [char_of (n mod 256)]"

definition be_nat :: "bytes \<Rightarrow> nat" where
  "be_nat bs = foldl (\<lambda>a c. a * 256 + of_char c) 0 bs"

definition AppendUint64 :: "bytes \<Rightarrow> 64 word \<Rightarrow> bytes" where
  "AppendUint64 b v = b @ be_bytes 8 (unat v)"

definition Uint64 :: "bytes \<Rightarrow> 64 word option" where
  "Uint64 b = (if length b < 8 then None else Some (of_nat (be_nat (take 8 b))))"

section \<open>The key codec\<close>

definition namespacePrefix :: bytes where
  "namespacePrefix = ''nmspc''"

definition blobPrefix :: bytes where
  "blobPrefix = ''blobs''"

definition trashPrefix :: bytes where
  "trashPrefix = ''trash''"

text \<open>
  \<open>key(ref, time, size)\<close>. The size is a Go \<open>int\<close> (64 bits); \<open>uint64(size)\<close> is
  \<open>word_of_int\<close>.
\<close>

definition key :: "BlobRef \<Rightarrow> Time \<Rightarrow> int \<Rightarrow> bytes" where
  "key ref time sz =
     (let rawStat = AppendUint64 [] (Unix time);
          rawStat = AppendUint64 rawStat (word_of_int sz);
          res = blobPrefix;
          res = res @ Namespace ref;
          res = res @ Key ref;
          res = res @ rawStat
      in res)"

text \<open>
  \<open>stat(from)\<close>: the slice expression \<open>from[len(from)-16:]\<close> panics on a key shorter
  than 16 bytes, which is \<open>None\<close> here. \<open>int(bytes)\<close> reads the 64 bits as signed.
\<close>

definition stat :: "bytes \<Rightarrow> (Time \<times> int) option" where
  "stat frm =
     (if length frm < 16 then None
      else let k = drop (length frm - 16) frm in
        case Uint64 (take 8 k) of
          None \<Rightarrow> None
        | Some seconds \<Rightarrow>
            (case Uint64 (drop 8 k) of
               None \<Rightarrow> None
             | Some bytes \<Rightarrow> Some (time_Unix seconds, sint bytes)))"

definition keyPrefix :: "BlobRef \<Rightarrow> bytes" where
  "keyPrefix ref = (blobPrefix @ Namespace ref) @ Key ref"

definition trashKey :: "BlobRef \<Rightarrow> bytes" where
  "trashKey ref = (trashPrefix @ Namespace ref) @ Key ref"

section \<open>The key-value engine\<close>

text \<open>
  The engine (badger) is an external collaborator. It is modelled by the contract the
  package uses: a store of key/value records with distinct keys, iterated in key order;
  \<open>View\<close> runs a function in a read-only transaction; \<open>Update\<close> runs it in a
  read-write transaction whose writes are applied together when the function returns no
  error and dropped otherwise. A write in a read-only transaction is refused with
  \<open>ErrReadOnlyTxn\<close>. A transaction reads its own pending writes with \<open>Get\<close>; an
  iterator shows the records as they were when it was created. The engine of the model
  never fails by itself (no input/output error, no size limit).

  \<open>Panic\<close> stands for a Go run-time panic: the call does not return, and the state is
  the one before the call. \<open>EOF\<close> is \<open>io.EOF\<close>.
\<close>

datatype error =
    ErrKeyNotFound
  | ErrReadOnlyTxn
  | AlreadyCommitted
  | MissingBlob
  | UnsupportedFormat
  | EOF
  | Panic

type_synonym DB = "(bytes \<times> bytes) list"

record Txn =
  update :: bool
  snapshot :: DB
  pendingWrites :: "(bytes \<times> bytes option) list"

fun db_write :: "bytes \<times> bytes option \<Rightarrow> DB \<Rightarrow> DB" where
  "db_write (k, Some v) d = (k, v) # filter (\<lambda>kv. fst kv \<noteq> k) d"
| "db_write (k, None) d = filter (\<lambda>kv. fst kv \<noteq> k) d"

text \<open>The pending writes are kept newest first and applied oldest first.\<close>

definition db_commit :: "(bytes \<times> bytes option) list \<Rightarrow> DB \<Rightarrow> DB" where
  "db_commit ws d = foldr db_write ws d"

definition txn_Set :: "Txn \<Rightarrow> bytes \<Rightarrow> bytes \<Rightarrow> error option \<times> Txn" where
  "txn_Set txn k v =
     (if \<not> update txn then (Some ErrReadOnlyTxn, txn)
      else (None, txn\<lparr>pendingWrites := (k, Some v) # pendingWrites txn\<rparr>))"

definition txn_Delete :: "Txn \<Rightarrow> bytes \<Rightarrow> error option \<times> Txn" where
  "txn_Delete txn k =
     (if \<not> update txn then (Some ErrReadOnlyTxn, txn)
      else (None, txn\<lparr>pendingWrites := (k, None) # pendingWrites txn\<rparr>))"

definition txn_Get :: "Txn \<Rightarrow> bytes \<Rightarrow> error + bytes" where
  "txn_Get txn k =
     (case (if update txn then map_of (pendingWrites txn) k else None) of
        Some (Some v) \<Rightarrow> Inr v
      | Some None \<Rightarrow> Inl ErrKeyNotFound
      | None \<Rightarrow>
          (case map_of (snapshot txn) k of
             Some v \<Rightarrow> Inr v
           | None \<Rightarrow> Inl ErrKeyNotFound))"

text \<open>
  An iterator is the list of the records it has still to show, in key order.
  \<open>NewIterator\<close> takes the \<open>Prefix\<close> option (\<open>None\<close> for the default options);
  \<open>it.Seek(k)\<close> moves to the first key not below \<open>k\<close>; \<open>it.ValidForPrefix(p)\<close> holds
  when there is a current record and its key starts with \<open>p\<close>; \<open>it.Next()\<close> is the tail.
\<close>

definition NewIterator :: "Txn \<Rightarrow> bytes option \<Rightarrow> DB" where
  "NewIterator txn opt =
     (let visible = (if update txn then db_commit (pendingWrites txn) (snapshot txn)
                     else snapshot txn);
          sorted = sort_key fst visible
      in case opt of
           None \<Rightarrow> sorted
         | Some p \<Rightarrow> filter (\<lambda>kv. prefix p (fst kv)) sorted)"

definition it_Seek :: "DB \<Rightarrow> bytes \<Rightarrow> DB" where
  "it_Seek it k = dropWhile (\<lambda>kv. fst kv < k) it"

definition db_Update :: "DB \<Rightarrow> (Txn \<Rightarrow> error option \<times> 'a \<times> Txn) \<Rightarrow> error option \<times> 'a \<times> DB" where
  "db_Update d f =
     (case f \<lparr>update = True, snapshot = d, pendingWrites = []\<rparr> of
        (Some e, a, txn) \<Rightarrow> (Some e, a, d)
      | (None, a, txn) \<Rightarrow> (None, a, db_commit (pendingWrites txn) d))"

definition db_View :: "DB \<Rightarrow> (Txn \<Rightarrow> error option \<times> 'a \<times> Txn) \<Rightarrow> error option \<times> 'a" where
  "db_View d f =
     (case f \<lparr>update = False, snapshot = d, pendingWrites = []\<rparr> of
        (e, a, txn) \<Rightarrow> (e, a))"

section \<open>The blob writer\<close>

text \<open>
  The fields of \<open>writer\<close>; the engine handle \<open>db\<close> is the store passed to \<open>Commit\<close>.
  A \<open>nil\<close> buffer is \<open>None\<close>. \<open>offset\<close> and \<open>length\<close> are Go \<open>int\<close>s; no operation
  below can take them out of the 64-bit range when the argument of \<open>Seek\<close> is in it.
  The field names carry the receiver's letter (\<open>w.offset\<close> is \<open>w_offset\<close>), since the
  reader has fields of the same names.
\<close>

record writer =
  w_offset :: int
  w_length :: int
  w_buffer :: "bytes option"
  w_ref :: BlobRef

definition NewWriter :: "BlobRef \<Rightarrow> writer" where
  "NewWriter ref =
     \<lparr>w_offset = 0, w_length = 0, w_buffer = Some (replicate 5000000 (CHR 0x00)), w_ref = ref\<rparr>"

definition SeekStart :: int where
  "SeekStart = 0"

definition writer_Seek :: "writer \<Rightarrow> int \<Rightarrow> int \<Rightarrow> int \<times> error option \<times> writer" where
  "writer_Seek w off whence =
     (if whence \<noteq> SeekStart then (0, Some Panic, w)
      else let w = w\<lparr>w_offset := off\<rparr>;
               w = (if w_offset w > w_length w then w\<lparr>w_length := w_offset w\<rparr> else w)
           in (w_offset w, None, w))"

definition Cancel :: "writer \<Rightarrow> error option \<times> writer" where
  "Cancel w = (None, w\<lparr>w_buffer := None\<rparr>)"

text \<open>
  \<open>Commit\<close>, with \<open>time.Now()\<close> as the argument \<open>now\<close>. The slice expression
  \<open>w.buffer[:w.offset]\<close> panics when the offset is negative or beyond the buffer; the
  panic leaves the transaction and the writer as they were.
\<close>

definition Commit :: "Time \<Rightarrow> writer \<Rightarrow> DB \<Rightarrow> error option \<times> writer \<times> DB" where
  "Commit now w d =
     (case w_buffer w of
        None \<Rightarrow> (Some AlreadyCommitted, w, d)
      | Some buf \<Rightarrow>
          if w_offset w < 0 \<or> int (length buf) < w_offset w then (Some Panic, w, d)
          else
            (case db_Update d (\<lambda>txn.
                    case txn_Set txn (key (w_ref w) now (w_offset w)) (take (nat (w_offset w)) buf) of
                      (e, txn) \<Rightarrow> (e, (), txn)) of
               (err, u, d') \<Rightarrow> (err, w\<lparr>w_buffer := None\<rparr>, d')))"

definition writer_Size :: "writer \<Rightarrow> int \<times> error option" where
  "writer_Size w = (w_offset w, None)"

text \<open>
  \<open>Write\<close>: the slice expression \<open>w.buffer[w.offset:len(p)+w.offset]\<close> panics unless
  \<open>0 \<le> offset\<close> and \<open>len(p)+offset\<close> is within the capacity (0 for a \<open>nil\<close> buffer);
  \<open>copy\<close> then copies all of \<open>p\<close>.
\<close>

definition Write :: "writer \<Rightarrow> bytes \<Rightarrow> nat \<times> error option \<times> writer" where
  "Write w p =
     (let buf = (case w_buffer w of None \<Rightarrow> [] | Some b \<Rightarrow> b);
          lo = w_offset w;
          hi = int (length p) + w_offset w
      in if lo < 0 \<or> int (length buf) < hi then (0, Some Panic, w)
         else let i = min (nat (hi - lo)) (length p);
                  buf = take (nat lo) buf @ take i p @ drop (nat lo + i) buf;
                  w = w\<lparr>w_buffer := map_option (\<lambda>b. buf) (w_buffer w)\<rparr>;
                  w = w\<lparr>w_offset := w_offset w + int i\<rparr>;
                  w = (if w_offset w > w_length w then w\<lparr>w_length := w_offset w\<rparr> else w)
              in (i, None, w))"

section \<open>The blob reader\<close>

record reader =
  r_offset :: int
  r_length :: int
  r_buffer :: bytes

text \<open>
  \<open>NewReader\<close>: the loop body runs at most once (it ends in \<open>break\<close>), on the first
  record whose key starts with \<open>keyPrefix(ref)\<close>.
\<close>

definition NewReader :: "DB \<Rightarrow> BlobRef \<Rightarrow> error + reader" where
  "NewReader d ref =
     (let r = \<lparr>r_offset = 0, r_length = 0, r_buffer = []\<rparr> in
      case db_View d (\<lambda>txn.
             let pref = keyPrefix ref;
                 it = NewIterator txn (Some pref);
                 it = it_Seek it pref;
                 (r, found) = (case it of
                                 [] \<Rightarrow> (r, False)
                               | item # rest \<Rightarrow>
                                   if prefix pref (fst item)
                                   then (r\<lparr>r_buffer := snd item\<rparr>, True)
                                   else (r, False));
                 r = r\<lparr>r_length := int (length (r_buffer r))\<rparr>
             in (None, (r, found), txn)) of
        (Some err, rf) \<Rightarrow> Inl err
      | (None, (r, found)) \<Rightarrow> if \<not> found then Inl MissingBlob else Inr r)"

text \<open>
  \<open>Read\<close> and \<open>ReadAt\<close> return the number of bytes copied, the error, the reader and
  the destination \<open>p\<close> after the copy. \<open>r.buffer[off:]\<close> panics when \<open>off\<close> is negative
  or beyond the buffer.
\<close>

definition Read :: "reader \<Rightarrow> bytes \<Rightarrow> nat \<times> error option \<times> reader \<times> bytes" where
  "Read r p =
     (if r_offset r \<ge> r_length r then (0, Some EOF, r, p)
      else if r_offset r < 0 \<or> int (length (r_buffer r)) < r_offset r then (0, Some Panic, r, p)
      else let src = drop (nat (r_offset r)) (r_buffer r);
               n = min (length p) (length src)
           in (n, None, r\<lparr>r_offset := r_offset r + int n\<rparr>, take n src @ drop n p))"

definition ReadAt :: "reader \<Rightarrow> bytes \<Rightarrow> int \<Rightarrow> nat \<times> error option \<times> reader \<times> bytes" where
  "ReadAt r p off =
     (if off < 0 \<or> int (length (r_buffer r)) < off then (0, Some Panic, r, p)
      else let src = drop (nat off) (r_buffer r);
               n = min (length p) (length src)
           in (n, None, r\<lparr>r_offset := r_offset r + int n\<rparr>, take n src @ drop n p))"

definition reader_Seek :: "reader \<Rightarrow> int \<Rightarrow> int \<Rightarrow> int \<times> error option \<times> reader" where
  "reader_Seek r off whence =
     (if whence \<noteq> SeekStart then (0, Some Panic, r)
      else (off, None, r\<lparr>r_offset := off\<rparr>))"

definition Close :: "reader \<Rightarrow> error option \<times> reader" where
  "Close r = (None, r\<lparr>r_buffer := []\<rparr>)"

definition reader_Size :: "reader \<Rightarrow> int \<times> error option" where
  "reader_Size r = (int (length (r_buffer r)), None)"

section \<open>The blob store\<close>

text \<open>
  \<open>BlobStore\<close>: the engine's records and the namespace registry (the directory is used
  only by the verification file and the free-space query).
\<close>

record BlobStore =
  db :: DB
  namespaces :: "bytes list"

text \<open>\<open>NewBlobStore\<close> on an empty directory: no record, no namespace.\<close>

definition fresh_store :: BlobStore where
  "fresh_store = \<lparr>db = [], namespaces = []\<rparr>"

definition bytesEq :: "bytes \<Rightarrow> bytes \<Rightarrow> bool" where
  "bytesEq ns namespace =
     (if length ns \<noteq> length namespace then False
      else list_all (\<lambda>i. ns ! i = namespace ! i) [0..<length ns])"

definition ensureNamespace :: "BlobStore \<Rightarrow> BlobRef \<Rightarrow> error option \<times> BlobStore" where
  "ensureNamespace b ref =
     (if list_ex (\<lambda>ns. bytesEq ns (Namespace ref)) (namespaces b) then (None, b)
      else
        (case db_Update (db b) (\<lambda>txn.
                case txn_Set txn (namespacePrefix @ Namespace ref) [CHR 0x01] of
                  (e, txn) \<Rightarrow> (e, (), txn)) of
           (Some err, u, d) \<Rightarrow> (Some err, b)
         | (None, u, d) \<Rightarrow> (None, b\<lparr>db := d, namespaces := namespaces b @ [Namespace ref]\<rparr>)))"

definition Create :: "BlobStore \<Rightarrow> BlobRef \<Rightarrow> writer \<times> error option \<times> BlobStore" where
  "Create b ref = (case ensureNamespace b ref of (err, b) \<Rightarrow> (NewWriter ref, err, b))"

definition Open :: "BlobStore \<Rightarrow> BlobRef \<Rightarrow> error + reader" where
  "Open b ref = NewReader (db b) ref"

text \<open>
  The loop of \<open>Delete\<close> over the iterator: it stops at the first record whose key does
  not start with the prefix, and at the first error of \<open>txn.Delete\<close>.
\<close>

fun Delete_loop :: "bytes \<Rightarrow> DB \<Rightarrow> Txn \<Rightarrow> error option \<times> unit \<times> Txn" where
  "Delete_loop pref [] txn = (None, (), txn)"
| "Delete_loop pref (item # it) txn =
     (if prefix pref (fst item) then
        (case txn_Delete txn (fst item) of
           (Some err, txn) \<Rightarrow> (Some err, (), txn)
         | (None, txn) \<Rightarrow> Delete_loop pref it txn)
      else (None, (), txn))"

definition Delete :: "BlobStore \<Rightarrow> BlobRef \<Rightarrow> error option \<times> BlobStore" where
  "Delete b ref =
     (case db_Update (db b) (\<lambda>txn.
             let pref = keyPrefix ref;
                 it = NewIterator txn (Some pref)
             in Delete_loop pref (it_Seek it pref) txn) of
        (err, u, d) \<Rightarrow> (err, b\<lparr>db := d\<rparr>))"

text \<open>
  The loop of \<open>Trash\<close>: the value goes to the key with \<open>blobs\<close> replaced by \<open>trash\<close>
  (\<open>key[5:]\<close> cannot panic: the key starts with the five bytes of \<open>blobPrefix\<close>), then the
  original is deleted. The \<open>timestamp\<close> argument is not used.
\<close>

fun Trash_loop :: "bytes \<Rightarrow> DB \<Rightarrow> Txn \<Rightarrow> error option \<times> unit \<times> Txn" where
  "Trash_loop pref [] txn = (None, (), txn)"
| "Trash_loop pref (item # it) txn =
     (if prefix pref (fst item) then
        (let k = fst item in
         case txn_Set txn (trashPrefix @ drop 5 k) (snd item) of
           (Some err, txn) \<Rightarrow> (Some err, (), txn)
         | (None, txn) \<Rightarrow>
             (case txn_Delete txn k of
                (Some err, txn) \<Rightarrow> (Some err, (), txn)
              | (None, txn) \<Rightarrow> Trash_loop pref it txn))
      else (None, (), txn))"

definition Trash :: "BlobStore \<Rightarrow> BlobRef \<Rightarrow> Time \<Rightarrow> error option \<times> BlobStore" where
  "Trash b ref timestamp =
     (case db_Update (db b) (\<lambda>txn.
             let pref = keyPrefix ref;
                 it = NewIterator txn (Some pref)
             in Trash_loop pref (it_Seek it pref) txn) of
        (err, u, d) \<Rightarrow> (err, b\<lparr>db := d\<rparr>))"

definition move :: "Txn \<Rightarrow> bytes \<Rightarrow> bytes \<Rightarrow> error option \<times> Txn" where
  "move txn frm to =
     (case txn_Get txn frm of
        Inl err \<Rightarrow> (Some err, txn)
      | Inr val \<Rightarrow>
          (case txn_Set txn to val of
             (Some err, txn) \<Rightarrow> (Some err, txn)
           | (None, txn) \<Rightarrow> txn_Delete txn frm))"

text \<open>
  The loop of \<open>RestoreTrash\<close>, with the keys collected so far. The \<open>namespace\<close>
  argument is not used.
\<close>

fun RestoreTrash_loop :: "DB \<Rightarrow> bytes list \<Rightarrow> Txn \<Rightarrow> error option \<times> bytes list \<times> Txn" where
  "RestoreTrash_loop [] keys txn = (None, keys, txn)"
| "RestoreTrash_loop (item # it) keys txn =
     (if prefix trashPrefix (fst item) then
        (let k = fst item;
             keys = keys @ [k];
             origKey = blobPrefix @ drop (length trashPrefix) k
         in case move txn k origKey of
              (Some err, txn) \<Rightarrow> (Some err, keys, txn)
            | (None, txn) \<Rightarrow> RestoreTrash_loop it keys txn)
      else (None, keys, txn))"

definition RestoreTrash :: "BlobStore \<Rightarrow> bytes \<Rightarrow> bytes list \<times> error option \<times> BlobStore" where
  "RestoreTrash b namespace =
     (case db_Update (db b) (\<lambda>txn.
             let it = NewIterator txn None
             in RestoreTrash_loop (it_Seek it trashPrefix) [] txn) of
        (err, keys, d) \<Rightarrow> (keys, err, b\<lparr>db := d\<rparr>))"

text \<open>
  The loop of \<open>EmptyTrash\<close>. The function runs it with \<open>db.View\<close>, a read-only
  transaction. Neither argument is used.
\<close>

fun EmptyTrash_loop :: "DB \<Rightarrow> bytes list \<Rightarrow> Txn \<Rightarrow> error option \<times> bytes list \<times> Txn" where
  "EmptyTrash_loop [] keys txn = (None, keys, txn)"
| "EmptyTrash_loop (item # it) keys txn =
     (if prefix trashPrefix (fst item) then
        (let k = fst item;
             keys = keys @ [k]
         in case txn_Delete txn k of
              (Some err, txn) \<Rightarrow> (Some err, keys, txn)
            | (None, txn) \<Rightarrow> EmptyTrash_loop it keys txn)
      else (None, keys, txn))"

definition EmptyTrash :: "BlobStore \<Rightarrow> bytes \<Rightarrow> Time \<Rightarrow> int \<times> bytes list \<times> error option \<times> BlobStore" where
  "EmptyTrash b namespace trashedBefore =
     (case db_View (db b) (\<lambda>txn.
             let it = NewIterator txn None
             in EmptyTrash_loop (it_Seek it trashPrefix) [] txn) of
        (err, keys) \<Rightarrow> (0, keys, err, b))"

section \<open>Reading to the end of the stream\<close>

text \<open>
  \<open>rall\<close>, the read-all loop of the tests. \<open>b\<close> is the content read so far and \<open>c\<close>
  the capacity of its backing array. When the slice is full, \<open>append(b, 0)[:len(b)]\<close>
  gives it a larger capacity, chosen by the Go run time: \<open>grow c\<close>, and at least
  \<open>c + 1\<close>. The destination of each \<open>Read\<close> is the spare capacity, whose content before
  the call is never looked at. The loop does not return when \<open>Read\<close> keeps returning no
  byte and no error: that is \<open>None\<close>.
\<close>

partial_function (option) rall_loop ::
  "(nat \<Rightarrow> nat) \<Rightarrow> bytes \<Rightarrow> nat \<Rightarrow> reader \<Rightarrow> (bytes \<times> error option \<times> reader) option" where
  "rall_loop grow b c r =
     (let c = (if length b = c then max (grow c) (c + 1) else c) in
      case Read r (replicate (c - length b) (CHR 0x00)) of
        (n, err, r, p) \<Rightarrow>
          (let b = b @ take n p in
           case err of
             Some e \<Rightarrow> Some (b, (if e = EOF then None else Some e), r)
           | None \<Rightarrow> rall_loop grow b c r))"

definition rall :: "(nat \<Rightarrow> nat) \<Rightarrow> reader \<Rightarrow> (bytes \<times> error option \<times> reader) option" where
  "rall grow r = rall_loop grow [] 1 r"

section \<open>Sessions of the tests\<close>

text \<open>
  The tests drive a writer by a sequence of \<open>Seek\<close> (from the start) and \<open>Write\<close>
  calls, each checked for an error, then commit it; they read a blob back with \<open>Open\<close>
  followed by a read to the end of the stream.
\<close>

datatype wop = DoSeek int | DoWrite bytes

fun run_wops :: "writer \<Rightarrow> wop list \<Rightarrow> error option \<times> writer" where
  "run_wops w [] = (None, w)"
| "run_wops w (DoSeek off # ops) =
     (case writer_Seek w off SeekStart of
        (n, Some err, w) \<Rightarrow> (Some err, w)
      | (n, None, w) \<Rightarrow> run_wops w ops)"
| "run_wops w (DoWrite p # ops) =
     (case Write w p of
        (n, Some err, w) \<Rightarrow> (Some err, w)
      | (n, None, w) \<Rightarrow> run_wops w ops)"

definition write_session ::
  "BlobStore \<Rightarrow> BlobRef \<Rightarrow> wop list \<Rightarrow> Time \<Rightarrow> error option \<times> BlobStore" where
  "write_session b ref ops now =
     (case Create b ref of
        (out, Some err, b) \<Rightarrow> (Some err, b)
      | (out, None, b) \<Rightarrow>
          (case run_wops out ops of
             (Some err, out) \<Rightarrow> (Some err, b)
           | (None, out) \<Rightarrow>
               (case Commit now out (db b) of
                  (err, out, d) \<Rightarrow> (err, b\<lparr>db := d\<rparr>))))"

text \<open>\<open>None\<close>: the read loop does not return.\<close>

definition read_back :: "(nat \<Rightarrow> nat) \<Rightarrow> BlobStore \<Rightarrow> BlobRef \<Rightarrow> (error + bytes) option" where
  "read_back grow b ref =
     (case Open b ref of
        Inl err \<Rightarrow> Some (Inl err)
      | Inr a \<Rightarrow>
          (case rall grow a of
             None \<Rightarrow> None
           | Some (content, Some err, a) \<Rightarrow> Some (Inl err)
           | Some (content, None, a) \<Rightarrow> Some (Inr content)))"

section \<open>Big-endian encoding: facts\<close>

lemma be_nat_snoc: "be_nat (bs @ [c]) = be_nat bs * 256 + of_char c"
  by (simp add: be_nat_def)

lemma be_nat_be_bytes: "be_nat (be_bytes k n) = n mod 256 ^ k"
proof (induction k arbitrary: n)
  case 0
  show ?case by (simp add: be_nat_def)
next
  case (Suc k)
  have "be_nat (be_bytes (Suc k) n) = (n div 256 mod 256 ^ k) * 256 + n mod 256"
    by (simp add: be_nat_snoc Suc)
  also have "\<dots> = n mod 256 ^ Suc k"
    by (simp add: mod_mult2_eq)
  finally show ?case .
qed

lemma length_be_bytes: "length (be_bytes k n) = k"
  by (induction k arbitrary: n) simp_all

lemma Uint64_be_bytes: "Uint64 (be_bytes 8 (unat v)) = Some v"
proof -
  have "unat v < 256 ^ 8"
    using unsigned_less [of v] by simp
  then show ?thesis
    by (simp add: Uint64_def length_be_bytes be_nat_be_bytes del: be_bytes.simps)
qed

lemma be_bytes_8:
  "be_bytes 8 n =
     [char_of (n div 256 div 256 div 256 div 256 div 256 div 256 div 256),
      char_of (n div 256 div 256 div 256 div 256 div 256 div 256),
      char_of (n div 256 div 256 div 256 div 256 div 256),
      char_of (n div 256 div 256 div 256 div 256),
      char_of (n div 256 div 256 div 256),
      char_of (n div 256 div 256),
      char_of (n div 256),
      char_of n]"
proof -
  have "(8::nat) = Suc (Suc (Suc (Suc (Suc (Suc (Suc (Suc 0)))))))"
    by simp
  then show ?thesis
    by (simp only: be_bytes.simps append_Nil append_Cons append_assoc mod_mod_trivial
        char_of_mod_256)
qed

section \<open>The key codec: facts\<close>

lemma key_suffix:
  "key ref t sz =
     keyPrefix ref @ be_bytes 8 (unat (Unix t)) @ be_bytes 8 (unat (word_of_int sz :: 64 word))"
  by (simp add: key_def keyPrefix_def AppendUint64_def Let_def del: be_bytes.simps)

lemma stat_suffix:
  "stat (p @ be_bytes 8 (unat a) @ be_bytes 8 (unat (b :: 64 word))) = Some (time_Unix a, sint b)"
proof -
  let ?k = "be_bytes 8 (unat a) @ be_bytes 8 (unat b)"
  have d: "drop (length (p @ ?k) - 16) (p @ ?k) = ?k"
    by (simp add: length_be_bytes del: be_bytes.simps)
  have t: "take 8 ?k = be_bytes 8 (unat a)"
    by (simp add: length_be_bytes del: be_bytes.simps)
  have r: "drop 8 ?k = be_bytes 8 (unat b)"
    by (simp add: length_be_bytes del: be_bytes.simps)
  have "\<not> length (p @ ?k) < 16"
    by (simp add: length_be_bytes del: be_bytes.simps)
  then show ?thesis
    unfolding stat_def Let_def d t r Uint64_be_bytes by simp
qed

lemma sint_size: "- (2 ^ 63) \<le> sz \<Longrightarrow> sz < 2 ^ 63 \<Longrightarrow> sint (word_of_int sz :: 64 word) = sz"
  by (simp add: signed_of_int signed_take_bit_int_eq_self)

lemma unat_size: "0 \<le> sz \<Longrightarrow> sz < 2 ^ 63 \<Longrightarrow> unat (word_of_int sz :: 64 word) = nat sz"
  by (simp add: unsigned_of_int take_bit_int_eq_self)

text \<open>
  C7. For every reference, every time and every non-negative size (a Go \<open>int\<close>, so below
  \<open>2^63\<close>), \<open>stat\<close> of the encoded key is the time truncated to whole seconds and the
  size; it is the time itself when the time has no fraction of a second. The last 16
  bytes of the key are the Unix seconds and then the size, each as eight big-endian bytes.
\<close>

theorem stat_key_roundtrip:
  assumes "0 \<le> sz" and "sz < 2 ^ 63"
  shows "stat (key ref t sz) = Some (Truncate_Second t, sz)
    \<and> (Nanosecond t = 0 \<longrightarrow> stat (key ref t sz) = Some (t, sz))
    \<and> drop (length (key ref t sz) - 16) (key ref t sz)
        = be_bytes 8 (unat (Unix t)) @ be_bytes 8 (nat sz)"
proof -
  have s: "sint (word_of_int sz :: 64 word) = sz"
    using assms by (simp add: sint_size)
  have u: "unat (word_of_int sz :: 64 word) = nat sz"
    using assms by (simp add: unat_size)
  have t: "time_Unix (Unix t) = Truncate_Second t"
    by (simp add: time_Unix_def Truncate_Second_def)
  have 1: "stat (key ref t sz) = Some (Truncate_Second t, sz)"
    by (simp only: key_suffix stat_suffix s t)
  have 2: "Nanosecond t = 0 \<longrightarrow> Truncate_Second t = t"
    by (simp add: Truncate_Second_def)
  have 3: "drop (length (key ref t sz) - 16) (key ref t sz)
        = be_bytes 8 (unat (Unix t)) @ be_bytes 8 (nat sz)"
    by (simp add: key_suffix length_be_bytes u del: be_bytes.simps)
  from 1 2 3 show ?thesis by simp
qed

theorem stat_key_roundtrip_witness:
  "(0::int) \<le> 1234 \<and> (1234::int) < 2 ^ 63
   \<and> Nanosecond \<lparr>Unix = 1700000000, Nanosecond = 0\<rparr> = 0
   \<and> stat (key \<lparr>Namespace = ''ns'', Key = ''key''\<rparr> \<lparr>Unix = 1700000000, Nanosecond = 0\<rparr> 1234)
       = Some (\<lparr>Unix = 1700000000, Nanosecond = 0\<rparr>, 1234)"
  using stat_key_roundtrip [of 1234 "\<lparr>Namespace = ''ns'', Key = ''key''\<rparr>"
      "\<lparr>Unix = 1700000000, Nanosecond = 0\<rparr>"]
  by (simp add: Truncate_Second_def)

lemma append_less_cancel: "(p @ xs < p @ ys) = (xs < (ys :: 'a :: linorder list))"
  by (induction p) simp_all

lemma append_less_eq_length:
  "length a = length b \<Longrightarrow> (a @ xs < b @ ys) = (a < b \<or> a = b \<and> xs < (ys :: 'a :: linorder list))"
  by (induction a b rule: list_induct2) auto

lemma be_nat_Cons: "be_nat (c # cs) = of_char c * 256 ^ length cs + be_nat cs"
proof (induction cs arbitrary: c rule: rev_induct)
  case Nil
  show ?case by (simp add: be_nat_def)
next
  case (snoc x xs)
  have "be_nat (c # xs @ [x]) = be_nat ((c # xs) @ [x])" by simp
  also have "\<dots> = be_nat (c # xs) * 256 + of_char x" by (rule be_nat_snoc)
  finally show ?case by (simp add: snoc be_nat_snoc algebra_simps)
qed

lemma be_nat_less: "be_nat cs < 256 ^ length cs"
proof (induction cs rule: rev_induct)
  case Nil
  show ?case by (simp add: be_nat_def)
next
  case (snoc x xs)
  obtain y :: nat where y: "of_char x = y" "y < 256" by simp
  from snoc have "be_nat xs * 256 + 256 \<le> 256 ^ length xs * 256" by simp
  with y show ?case by (simp add: be_nat_snoc)
qed

lemma lex_step:
  fixes a b m p q :: nat
  assumes "p < m" and "q < m"
  shows "(a * m + p < b * m + q) = (a < b \<or> a = b \<and> p < q)"
proof (cases a b rule: linorder_cases)
  case less
  then have "a + 1 \<le> b" by simp
  then have "(a + 1) * m \<le> b * m" by (rule mult_le_mono1)
  with assms less show ?thesis by (simp add: algebra_simps)
next
  case equal
  then show ?thesis by simp
next
  case greater
  then have "b + 1 \<le> a" by simp
  then have "(b + 1) * m \<le> a * m" by (rule mult_le_mono1)
  with assms greater show ?thesis by (simp add: algebra_simps)
qed

lemma be_nat_less_iff:
  "length xs = length ys \<Longrightarrow> (xs < ys) = (be_nat xs < be_nat ys)"
proof (induction xs ys rule: list_induct2)
  case Nil
  show ?case by (simp add: be_nat_def)
next
  case (Cons x xs y ys)
  let ?m = "256 ^ length ys :: nat"
  have bx: "be_nat xs < ?m" using be_nat_less [of xs] Cons.hyps by simp
  have by': "be_nat ys < ?m" by (rule be_nat_less)
  have lt: "(x < y) = ((of_char x :: nat) < of_char y)" by (rule less_char_def)
  have eq: "(x = y) = ((of_char x :: nat) = of_char y)" by simp
  have "(x # xs < y # ys) = (x < y \<or> x = y \<and> xs < ys)" by (rule Cons_less_Cons)
  also have "\<dots> = ((of_char x :: nat) < of_char y \<or> (of_char x :: nat) = of_char y \<and> be_nat xs < be_nat ys)"
    by (simp only: lt eq Cons.IH)
  also have "\<dots> = (of_char x * ?m + be_nat xs < of_char y * ?m + be_nat ys)"
    by (rule lex_step [OF bx by', symmetric])
  also have "\<dots> = (be_nat (x # xs) < be_nat (y # ys))"
    by (simp only: be_nat_Cons Cons.hyps)
  finally show ?case .
qed

lemma be_bytes_less_iff:
  "m < 256 ^ k \<Longrightarrow> n < 256 ^ k \<Longrightarrow> (be_bytes k m < be_bytes k n) = (m < n)"
  by (simp add: be_nat_less_iff length_be_bytes be_nat_be_bytes)

lemma be_bytes_eq_iff:
  "m < 256 ^ k \<Longrightarrow> n < 256 ^ k \<Longrightarrow> (be_bytes k m = be_bytes k n) = (m = n)"
  by (metis be_nat_be_bytes mod_less)

lemma prefix_convex:
  "prefix p k1 \<Longrightarrow> prefix p k3 \<Longrightarrow> k1 \<le> k2 \<Longrightarrow> k2 \<le> k3 \<Longrightarrow> prefix p (k2 :: 'a :: linorder list)"
proof (induction p arbitrary: k1 k2 k3)
  case Nil
  show ?case by simp
next
  case (Cons a p)
  from Cons.prems(1) obtain k1' where k1: "k1 = a # k1'" and p1: "prefix p k1'"
    by (cases k1) simp_all
  from Cons.prems(2) obtain k3' where k3: "k3 = a # k3'" and p3: "prefix p k3'"
    by (cases k3) simp_all
  from Cons.prems(3) k1 obtain b k2' where k2: "k2 = b # k2'"
    by (cases k2) simp_all
  from Cons.prems(3) have 1: "a < b \<or> a = b \<and> k1' \<le> k2'"
    unfolding k1 k2 by simp
  from Cons.prems(4) have 2: "b < a \<or> b = a \<and> k2' \<le> k3'"
    unfolding k2 k3 by simp
  from 1 2 have ab: "a = b" and le: "k1' \<le> k2'" "k2' \<le> k3'"
    by auto
  from Cons.IH [OF p1 p3 le] show ?case
    unfolding k2 ab by simp
qed


lemma unat_bound: "unat (w :: 64 word) < 256 ^ 8"
  using unsigned_less [of w] by simp

lemma be_bytes_word_eq_iff:
  "(be_bytes 8 (unat (a :: 64 word)) = be_bytes 8 (unat (c :: 64 word))) = (a = c)"
  using be_bytes_eq_iff [OF unat_bound unat_bound, of a c]
  by (simp add: word_unat_eq_iff del: be_bytes.simps)

lemma be_bytes_word_less_iff:
  "(be_bytes 8 (unat (a :: 64 word)) < be_bytes 8 (unat (c :: 64 word))) = (unat a < unat c)"
  by (rule be_bytes_less_iff [OF unat_bound unat_bound])

lemma suffix_eq_iff:
  "(be_bytes 8 (unat (a :: 64 word)) @ be_bytes 8 (unat (b :: 64 word))
      = be_bytes 8 (unat (c :: 64 word)) @ be_bytes 8 (unat (d :: 64 word)))
   = (a = c \<and> b = d)"
  by (simp add: length_be_bytes be_bytes_word_eq_iff del: be_bytes.simps)

lemma suffix_less_iff:
  "(be_bytes 8 (unat (a :: 64 word)) @ be_bytes 8 (unat (b :: 64 word))
      < be_bytes 8 (unat (c :: 64 word)) @ be_bytes 8 (unat (d :: 64 word)))
   = (unat a < unat c \<or> a = c \<and> unat b < unat d)"
  by (simp add: append_less_eq_length length_be_bytes be_bytes_word_eq_iff be_bytes_word_less_iff
      del: be_bytes.simps)

lemma key_eq_iff:
  "(key r1 t1 s1 = key r2 t2 s2)
   = (Namespace r1 @ Key r1 = Namespace r2 @ Key r2 \<and> Unix t1 = Unix t2
      \<and> (word_of_int s1 :: 64 word) = word_of_int s2)"
proof -
  let ?x1 = "be_bytes 8 (unat (Unix t1)) @ be_bytes 8 (unat (word_of_int s1 :: 64 word))"
  let ?x2 = "be_bytes 8 (unat (Unix t2)) @ be_bytes 8 (unat (word_of_int s2 :: 64 word))"
  have l: "length ?x1 = length ?x2"
    by (simp add: length_be_bytes del: be_bytes.simps)
  have "(key r1 t1 s1 = key r2 t2 s2) = (keyPrefix r1 @ ?x1 = keyPrefix r2 @ ?x2)"
    by (simp only: key_suffix)
  also have "\<dots> = (keyPrefix r1 = keyPrefix r2 \<and> ?x1 = ?x2)"
    using l by (rule append_eq_append_conv2 [THEN trans] | simp)+
  finally show ?thesis
    by (simp only: suffix_eq_iff) (simp add: keyPrefix_def)
qed


lemma key_less_iff:
  "(key r t1 s1 < key r t2 s2)
   = (unat (Unix t1) < unat (Unix t2)
      \<or> Unix t1 = Unix t2 \<and> unat (word_of_int s1 :: 64 word) < unat (word_of_int s2 :: 64 word))"
  by (simp only: key_suffix append_less_cancel suffix_less_iff)

lemma unat_nonneg:
  assumes "0 \<le> sint (w :: 64 word)"
  shows "int (unat w) = sint w"
proof -
  have "sint w < 2 ^ 63"
    using sint_lt [of w] by simp
  with assms have "unat (word_of_int (sint w) :: 64 word) = nat (sint w)"
    by (rule unat_size)
  with assms show ?thesis by simp
qed

lemma key_parts:
  "key r t s = blobPrefix @ Namespace r @ Key r
     @ (be_bytes 8 (unat (Unix t)) @ be_bytes 8 (unat (word_of_int s :: 64 word)))"
  by (simp add: key_suffix keyPrefix_def del: be_bytes.simps)

lemma prefix_append_comparable:
  assumes "prefix xs (ys @ zs)"
  shows "prefix xs ys \<or> prefix ys xs"
  using assms unfolding prefix_append by auto

lemma prefix_same_length: "prefix xs ys \<or> prefix ys xs \<Longrightarrow> length xs = length ys \<Longrightarrow> xs = ys"
  by (auto simp: prefix_def)

lemma between_namespace:
  assumes "Namespace r1 = Namespace r3"
    and "key r1 t1 s1 \<le> key r2 t2 s2" and "key r2 t2 s2 \<le> key r3 t3 s3"
  shows "prefix (Namespace r1) (Namespace r2) \<or> prefix (Namespace r2) (Namespace r1)"
proof -
  let ?p = "blobPrefix @ Namespace r1"
  have p1: "prefix ?p (key r1 t1 s1)"
    unfolding key_parts by simp
  have p3: "prefix ?p (key r3 t3 s3)"
    unfolding key_parts assms(1) by simp
  have "prefix ?p (key r2 t2 s2)"
    using p1 p3 assms(2,3) by (rule prefix_convex)
  then have "prefix (Namespace r1) (Namespace r2 @ Key r2
     @ (be_bytes 8 (unat (Unix t2)) @ be_bytes 8 (unat (word_of_int s2 :: 64 word))))"
    unfolding key_parts by simp
  then show ?thesis by (rule prefix_append_comparable)
qed

lemma between_key:
  assumes "Namespace r1 = Namespace r3" and "Key r1 = Key r3" and "Namespace r2 = Namespace r1"
    and "key r1 t1 s1 \<le> key r2 t2 s2" and "key r2 t2 s2 \<le> key r3 t3 s3"
  shows "prefix (Key r1) (Key r2) \<or> prefix (Key r2) (Key r1)"
proof -
  let ?p = "blobPrefix @ Namespace r1 @ Key r1"
  have p1: "prefix ?p (key r1 t1 s1)"
    unfolding key_parts by simp
  have p3: "prefix ?p (key r3 t3 s3)"
    unfolding key_parts assms(1,2) by simp
  have "prefix ?p (key r2 t2 s2)"
    using p1 p3 assms(4,5) by (rule prefix_convex)
  then have "prefix (Key r1) (Key r2
     @ (be_bytes 8 (unat (Unix t2)) @ be_bytes 8 (unat (word_of_int s2 :: 64 word))))"
    unfolding key_parts assms(3) by simp
  then show ?thesis by (rule prefix_append_comparable)
qed

text \<open>
  C6, as amended. Two encoded keys are equal exactly when the concatenations
  namespace, key of the two references, the Unix seconds and the sizes are equal; so
  the encoding is injective on references whose namespaces have the same length, not on
  all references. In key order, a record that lies between two records of one namespace
  has a namespace that is a prefix or an extension of it, so among namespaces of the same
  length the records of one namespace are contiguous; within a namespace, a record between
  two records of one key has a key that is a prefix or an extension of it, so among keys
  of the same length the records of one key are contiguous. The versions of one reference
  with non-negative times and sizes are ordered by time, then size.
\<close>

theorem key_injective_ordered:
  assumes "0 \<le> s1" and "s1 < 2 ^ 63" and "0 \<le> s2" and "s2 < 2 ^ 63"
  shows "(key r1 t1 s1 = key r2 t2 s2
          \<longleftrightarrow> Namespace r1 @ Key r1 = Namespace r2 @ Key r2 \<and> Unix t1 = Unix t2 \<and> s1 = s2)
    \<and> (length (Namespace r1) = length (Namespace r2) \<longrightarrow>
          (key r1 t1 s1 = key r2 t2 s2 \<longleftrightarrow> r1 = r2 \<and> Unix t1 = Unix t2 \<and> s1 = s2))
    \<and> (Namespace r1 = Namespace r3
         \<and> key r1 t1 s1 \<le> key r2 t2 s2 \<and> key r2 t2 s2 \<le> key r3 t3 s3 \<longrightarrow>
          (prefix (Namespace r1) (Namespace r2) \<or> prefix (Namespace r2) (Namespace r1))
          \<and> (length (Namespace r2) = length (Namespace r1) \<longrightarrow> Namespace r2 = Namespace r1))
    \<and> (Namespace r1 = Namespace r3 \<and> Key r1 = Key r3 \<and> Namespace r2 = Namespace r1
         \<and> key r1 t1 s1 \<le> key r2 t2 s2 \<and> key r2 t2 s2 \<le> key r3 t3 s3 \<longrightarrow>
          (prefix (Key r1) (Key r2) \<or> prefix (Key r2) (Key r1))
          \<and> (length (Key r2) = length (Key r1) \<longrightarrow> r2 = r1))
    \<and> (r1 = r2 \<and> 0 \<le> sint (Unix t1) \<and> 0 \<le> sint (Unix t2) \<longrightarrow>
          (key r1 t1 s1 < key r2 t2 s2
           \<longleftrightarrow> sint (Unix t1) < sint (Unix t2) \<or> sint (Unix t1) = sint (Unix t2) \<and> s1 < s2))"
proof -
  have u1: "unat (word_of_int s1 :: 64 word) = nat s1"
    using assms by (simp add: unat_size)
  have u2: "unat (word_of_int s2 :: 64 word) = nat s2"
    using assms by (simp add: unat_size)
  have w: "((word_of_int s1 :: 64 word) = word_of_int s2) = (s1 = s2)"
    using assms u1 u2 by (metis int_nat_eq)
  have a: "key r1 t1 s1 = key r2 t2 s2
          \<longleftrightarrow> Namespace r1 @ Key r1 = Namespace r2 @ Key r2 \<and> Unix t1 = Unix t2 \<and> s1 = s2"
    by (simp only: key_eq_iff w)
  have req: "(r1 = r2) = (Namespace r1 = Namespace r2 \<and> Key r1 = Key r2)"
    by (cases r1, cases r2) simp
  have b: "key r1 t1 s1 = key r2 t2 s2 \<longleftrightarrow> r1 = r2 \<and> Unix t1 = Unix t2 \<and> s1 = s2"
    if "length (Namespace r1) = length (Namespace r2)"
    using that by (simp add: a req)
  have c: "(prefix (Namespace r1) (Namespace r2) \<or> prefix (Namespace r2) (Namespace r1))
          \<and> (length (Namespace r2) = length (Namespace r1) \<longrightarrow> Namespace r2 = Namespace r1)"
    if "Namespace r1 = Namespace r3" "key r1 t1 s1 \<le> key r2 t2 s2"
      "key r2 t2 s2 \<le> key r3 t3 s3"
  proof -
    note cmp = between_namespace [OF that]
    have "Namespace r2 = Namespace r1" if "length (Namespace r2) = length (Namespace r1)"
      using prefix_same_length [OF cmp] that by simp
    with cmp show ?thesis by blast
  qed
  have d: "(prefix (Key r1) (Key r2) \<or> prefix (Key r2) (Key r1))
          \<and> (length (Key r2) = length (Key r1) \<longrightarrow> r2 = r1)"
    if "Namespace r1 = Namespace r3" "Key r1 = Key r3" "Namespace r2 = Namespace r1"
      "key r1 t1 s1 \<le> key r2 t2 s2" "key r2 t2 s2 \<le> key r3 t3 s3"
  proof -
    note cmp = between_key [OF that]
    have "r2 = r1" if "length (Key r2) = length (Key r1)"
      using prefix_same_length [OF cmp] that \<open>Namespace r2 = Namespace r1\<close> by (simp add: req)
    with cmp show ?thesis by blast
  qed
  have e: "key r1 t1 s1 < key r2 t2 s2
           \<longleftrightarrow> sint (Unix t1) < sint (Unix t2) \<or> sint (Unix t1) = sint (Unix t2) \<and> s1 < s2"
    if r: "r1 = r2" and n1: "0 \<le> sint (Unix t1)" and n2: "0 \<le> sint (Unix t2)"
  proof -
    have e: "(Unix t1 = Unix t2) = (sint (Unix t1) = sint (Unix t2))"
      by (rule word_eq_iff_signed)
    have l: "(unat (Unix t1) < unat (Unix t2)) = (sint (Unix t1) < sint (Unix t2))"
      using unat_nonneg [OF n1] unat_nonneg [OF n2] by linarith
    have s: "(nat s1 < nat s2) = (s1 < s2)"
      using assms by linarith
    show ?thesis
      unfolding r key_less_iff u1 u2 e l s ..
  qed
  from a b c d e show ?thesis by blast
qed

theorem key_not_injective_counterexample:
  "(\<lparr>Namespace = ''a'', Key = ''b''\<rparr>, \<lparr>Unix = 0, Nanosecond = 0\<rparr>, 0 :: int)
     \<noteq> (\<lparr>Namespace = ''ab'', Key = []\<rparr>, \<lparr>Unix = 0, Nanosecond = 0\<rparr>, 0)
   \<and> key \<lparr>Namespace = ''a'', Key = ''b''\<rparr> \<lparr>Unix = 0, Nanosecond = 0\<rparr> 0
     = key \<lparr>Namespace = ''ab'', Key = []\<rparr> \<lparr>Unix = 0, Nanosecond = 0\<rparr> 0
   \<and> key \<lparr>Namespace = ''a'', Key = ''a''\<rparr> \<lparr>Unix = 0, Nanosecond = 0\<rparr> 0
     < key \<lparr>Namespace = ''ab'', Key = []\<rparr> \<lparr>Unix = 0, Nanosecond = 0\<rparr> 0
   \<and> key \<lparr>Namespace = ''ab'', Key = []\<rparr> \<lparr>Unix = 0, Nanosecond = 0\<rparr> 0
     < key \<lparr>Namespace = ''a'', Key = ''c''\<rparr> \<lparr>Unix = 0, Nanosecond = 0\<rparr> 0"
  by (simp add: key_suffix keyPrefix_def blobPrefix_def del: be_bytes.simps)

theorem key_injective_ordered_witness:
  "(0::int) \<le> 5 \<and> (5::int) < 2 ^ 63 \<and> (0::int) \<le> 7 \<and> (7::int) < 2 ^ 63
   \<and> 0 \<le> sint (Unix \<lparr>Unix = 100, Nanosecond = 0\<rparr>)
   \<and> 0 \<le> sint (Unix \<lparr>Unix = 150, Nanosecond = 0\<rparr>)
   \<and> key \<lparr>Namespace = ''aa'', Key = ''k1''\<rparr> \<lparr>Unix = 100, Nanosecond = 0\<rparr> 5
       < key \<lparr>Namespace = ''aa'', Key = ''k1''\<rparr> \<lparr>Unix = 150, Nanosecond = 0\<rparr> 7
   \<and> key \<lparr>Namespace = ''aa'', Key = ''k1''\<rparr> \<lparr>Unix = 150, Nanosecond = 0\<rparr> 7
       < key \<lparr>Namespace = ''aa'', Key = ''k1''\<rparr> \<lparr>Unix = 200, Nanosecond = 0\<rparr> 3
   \<and> key \<lparr>Namespace = ''aa'', Key = ''k1''\<rparr> \<lparr>Unix = 100, Nanosecond = 0\<rparr> 5
       \<noteq> key \<lparr>Namespace = ''aa'', Key = ''k1''\<rparr> \<lparr>Unix = 150, Nanosecond = 0\<rparr> 7
   \<and> key \<lparr>Namespace = ''aa'', Key = ''k1''\<rparr> \<lparr>Unix = 100, Nanosecond = 0\<rparr> 5
       \<noteq> key \<lparr>Namespace = ''ab'', Key = ''k0''\<rparr> \<lparr>Unix = 100, Nanosecond = 0\<rparr> 5
   \<and> \<not> (key \<lparr>Namespace = ''aa'', Key = ''k1''\<rparr> \<lparr>Unix = 100, Nanosecond = 0\<rparr> 5
          \<le> key \<lparr>Namespace = ''ab'', Key = ''k0''\<rparr> \<lparr>Unix = 150, Nanosecond = 0\<rparr> 7
        \<and> key \<lparr>Namespace = ''ab'', Key = ''k0''\<rparr> \<lparr>Unix = 150, Nanosecond = 0\<rparr> 7
          \<le> key \<lparr>Namespace = ''aa'', Key = ''k9''\<rparr> \<lparr>Unix = 200, Nanosecond = 0\<rparr> 3)
   \<and> \<not> (key \<lparr>Namespace = ''aa'', Key = ''k1''\<rparr> \<lparr>Unix = 100, Nanosecond = 0\<rparr> 5
          \<le> key \<lparr>Namespace = ''aa'', Key = ''k2''\<rparr> \<lparr>Unix = 150, Nanosecond = 0\<rparr> 7
        \<and> key \<lparr>Namespace = ''aa'', Key = ''k2''\<rparr> \<lparr>Unix = 150, Nanosecond = 0\<rparr> 7
          \<le> key \<lparr>Namespace = ''aa'', Key = ''k1''\<rparr> \<lparr>Unix = 200, Nanosecond = 0\<rparr> 3)"
proof -
  let ?a = "\<lparr>Namespace = ''aa'', Key = ''k1''\<rparr>"
  let ?b = "\<lparr>Namespace = ''ab'', Key = ''k0''\<rparr>"
  let ?c = "\<lparr>Namespace = ''aa'', Key = ''k9''\<rparr>"
  let ?d = "\<lparr>Namespace = ''aa'', Key = ''k2''\<rparr>"
  let ?t1 = "\<lparr>Unix = 100, Nanosecond = 0\<rparr>"
  let ?t2 = "\<lparr>Unix = 150, Nanosecond = 0\<rparr>"
  let ?t3 = "\<lparr>Unix = 200, Nanosecond = 0\<rparr>"
  have h: "(0::int) \<le> 5" "(5::int) < 2 ^ 63" "(0::int) \<le> 7" "(7::int) < 2 ^ 63"
    by simp_all
  have h3: "(0::int) \<le> 3" "(3::int) < 2 ^ 63"
    by simp_all
  have n: "0 \<le> sint (Unix ?t1)" "0 \<le> sint (Unix ?t2)"
    by simp_all
  note same = key_injective_ordered [OF h, of ?a ?t1 ?a ?t2 ?a ?t3 3]
  have lt12: "key ?a ?t1 5 < key ?a ?t2 7"
    using same [THEN conjunct2, THEN conjunct2, THEN conjunct2, THEN conjunct2] by simp
  have lt23: "key ?a ?t2 7 < key ?a ?t3 3"
    using key_injective_ordered [OF h(3,4) h3, of ?a ?t2 ?a ?t3 ?a ?t3 3,
        THEN conjunct2, THEN conjunct2, THEN conjunct2, THEN conjunct2] by simp
  have ne12: "key ?a ?t1 5 \<noteq> key ?a ?t2 7"
    using same [THEN conjunct1] by simp
  have neab: "key ?a ?t1 5 \<noteq> key ?b ?t1 5"
    using key_injective_ordered [OF h(1,2) h(1,2), of ?a ?t1 ?b ?t1 ?a ?t1 5, THEN conjunct2,
        THEN conjunct1] by simp
  have nb: "\<not> (key ?a ?t1 5 \<le> key ?b ?t2 7 \<and> key ?b ?t2 7 \<le> key ?c ?t3 3)"
    using key_injective_ordered [OF h, of ?a ?t1 ?b ?t2 ?c ?t3 3, THEN conjunct2, THEN conjunct2,
        THEN conjunct1] by auto
  have nk: "\<not> (key ?a ?t1 5 \<le> key ?d ?t2 7 \<and> key ?d ?t2 7 \<le> key ?a ?t3 3)"
    using key_injective_ordered [OF h, of ?a ?t1 ?d ?t2 ?a ?t3 3, THEN conjunct2, THEN conjunct2,
        THEN conjunct2, THEN conjunct1] by auto
  from h n lt12 lt23 ne12 neab nb nk show ?thesis by simp
qed

section \<open>The reader: \<open>ReadAt\<close> moves the cursor\<close>

text \<open>
  C10. For every reader and every offset within the buffered content, \<open>ReadAt\<close> copies
  \<open>n = min(len(p), len(buffer) - off)\<close> bytes and adds \<open>n\<close> to the cursor of the
  sequential \<open>Read\<close>: the reader it leaves differs from the one before whenever a byte
  was copied, and the next \<open>Read\<close> copies from the old cursor plus \<open>n\<close>, not from the
  old cursor.
\<close>

theorem ReadAt_advances_cursor:
  assumes "0 \<le> off" and "off \<le> int (length (r_buffer r))"
    and "n = min (length p) (length (r_buffer r) - nat off)"
  shows "ReadAt r p off
           = (n, None, r\<lparr>r_offset := r_offset r + int n\<rparr>,
              take n (drop (nat off) (r_buffer r)) @ drop n p)
    \<and> (0 < n \<longrightarrow> r\<lparr>r_offset := r_offset r + int n\<rparr> \<noteq> r)
    \<and> (0 \<le> r_offset r \<and> r_offset r + int n < r_length r
         \<and> r_length r = int (length (r_buffer r)) \<longrightarrow>
         (\<forall>q m. m = min (length q) (length (r_buffer r) - (nat (r_offset r) + n)) \<longrightarrow>
           Read (r\<lparr>r_offset := r_offset r + int n\<rparr>) q
             = (m, None, r\<lparr>r_offset := r_offset r + int n + int m\<rparr>,
                take m (drop (nat (r_offset r) + n) (r_buffer r)) @ drop m q)))"
proof -
  have 1: "ReadAt r p off
           = (n, None, r\<lparr>r_offset := r_offset r + int n\<rparr>,
              take n (drop (nat off) (r_buffer r)) @ drop n p)"
    using assms by (simp add: ReadAt_def Let_def)
  have 2: "r\<lparr>r_offset := r_offset r + int n\<rparr> \<noteq> r" if "0 < n"
  proof
    assume "r\<lparr>r_offset := r_offset r + int n\<rparr> = r"
    then have "r_offset (r\<lparr>r_offset := r_offset r + int n\<rparr>) = r_offset r"
      by (rule arg_cong)
    with that show False by simp
  qed
  have 3: "Read (r\<lparr>r_offset := r_offset r + int n\<rparr>) q
             = (m, None, r\<lparr>r_offset := r_offset r + int n + int m\<rparr>,
                take m (drop (nat (r_offset r) + n) (r_buffer r)) @ drop m q)"
    if "0 \<le> r_offset r" "r_offset r + int n < r_length r"
      "r_length r = int (length (r_buffer r))"
      "m = min (length q) (length (r_buffer r) - (nat (r_offset r) + n))"
    for q m
    using that by (simp add: Read_def Let_def nat_add_distrib)
  from 1 2 3 show ?thesis by blast
qed

theorem ReadAt_advances_cursor_witness:
  "(0::int) \<le> 5
   \<and> (5::int) \<le> int (length (r_buffer \<lparr>r_offset = 2, r_length = 10, r_buffer = ''0123456789''\<rparr>))
   \<and> ReadAt \<lparr>r_offset = 2, r_length = 10, r_buffer = ''0123456789''\<rparr> ''xyz'' 5
       = (3, None, \<lparr>r_offset = 5, r_length = 10, r_buffer = ''0123456789''\<rparr>, ''567'')
   \<and> \<lparr>r_offset = 5, r_length = 10, r_buffer = ''0123456789''\<rparr>
       \<noteq> \<lparr>r_offset = 2, r_length = 10, r_buffer = ''0123456789''\<rparr>
   \<and> Read \<lparr>r_offset = 5, r_length = 10, r_buffer = ''0123456789''\<rparr> ''uv''
       = (2, None, \<lparr>r_offset = 7, r_length = 10, r_buffer = ''0123456789''\<rparr>, ''56'')
   \<and> Read \<lparr>r_offset = 2, r_length = 10, r_buffer = ''0123456789''\<rparr> ''uv''
       = (2, None, \<lparr>r_offset = 4, r_length = 10, r_buffer = ''0123456789''\<rparr>, ''23'')"
proof -
  let ?r = "\<lparr>r_offset = 2, r_length = 10, r_buffer = ''0123456789''\<rparr>"
  have h: "(0::int) \<le> 5" "(5::int) \<le> int (length (r_buffer ?r))"
    "(3::nat) = min (length ''xyz'') (length (r_buffer ?r) - nat 5)"
    by simp_all
  note th = ReadAt_advances_cursor [OF h]
  have a: "ReadAt ?r ''xyz'' 5
       = (3, None, \<lparr>r_offset = 5, r_length = 10, r_buffer = ''0123456789''\<rparr>, ''567'')"
    using th [THEN conjunct1] by simp
  have b: "\<lparr>r_offset = 5, r_length = 10, r_buffer = ''0123456789''\<rparr> \<noteq> ?r"
    using th [THEN conjunct2, THEN conjunct1] by simp
  have c: "Read \<lparr>r_offset = 5, r_length = 10, r_buffer = ''0123456789''\<rparr> ''uv''
       = (2, None, \<lparr>r_offset = 7, r_length = 10, r_buffer = ''0123456789''\<rparr>, ''56'')"
    using th [THEN conjunct2, THEN conjunct2, rule_format, where q = "''uv''" and m = 2] by simp
  have d: "Read ?r ''uv''
       = (2, None, \<lparr>r_offset = 4, r_length = 10, r_buffer = ''0123456789''\<rparr>, ''23'')"
    by (simp add: Read_def)
  from h a b c d show ?thesis by simp
qed

section \<open>The writer: finalization\<close>

text \<open>
  C9, as amended. On a finalized writer (its buffer released by \<open>Commit\<close> or \<open>Cancel\<close>)
  \<open>Commit\<close> returns the error "Already committed" and stores nothing. \<open>Cancel\<close> returns
  no error on every writer, finalized or not, and releases the buffer. A \<open>Commit\<close> that
  returns (without a panic) leaves the writer finalized.
\<close>

theorem finalized_writer:
  "(w_buffer w = None \<longrightarrow> Commit now w d = (Some AlreadyCommitted, w, d))
   \<and> Cancel w = (None, w\<lparr>w_buffer := None\<rparr>)
   \<and> (w_buffer w = None \<longrightarrow> Cancel w = (None, w))
   \<and> (fst (Commit now w d) \<noteq> Some Panic \<longrightarrow> w_buffer (fst (snd (Commit now w d))) = None)"
proof -
  have 1: "Commit now w d = (Some AlreadyCommitted, w, d)" if "w_buffer w = None"
    using that by (simp add: Commit_def)
  have 2: "Cancel w = (None, w\<lparr>w_buffer := None\<rparr>)"
    by (simp add: Cancel_def)
  have 3: "Cancel w = (None, w)" if "w_buffer w = None"
    using that by (simp add: Cancel_def)
  have 4: "w_buffer (fst (snd (Commit now w d))) = None" if "fst (Commit now w d) \<noteq> Some Panic"
    using that by (auto simp: Commit_def split: option.splits if_splits prod.splits)
  from 1 2 3 4 show ?thesis by blast
qed

theorem finalized_writer_witness:
  "w_buffer (snd (Cancel (NewWriter \<lparr>Namespace = ''ns'', Key = ''key1''\<rparr>))) = None
   \<and> Commit \<lparr>Unix = 1700000000, Nanosecond = 0\<rparr>
        (snd (Cancel (NewWriter \<lparr>Namespace = ''ns'', Key = ''key1''\<rparr>))) []
       = (Some AlreadyCommitted, snd (Cancel (NewWriter \<lparr>Namespace = ''ns'', Key = ''key1''\<rparr>)), [])
   \<and> Cancel (snd (Cancel (NewWriter \<lparr>Namespace = ''ns'', Key = ''key1''\<rparr>)))
       = (None, snd (Cancel (NewWriter \<lparr>Namespace = ''ns'', Key = ''key1''\<rparr>)))
   \<and> fst (Commit \<lparr>Unix = 1700000000, Nanosecond = 0\<rparr>
        (snd (Cancel (NewWriter \<lparr>Namespace = ''ns'', Key = ''key1''\<rparr>))) []) \<noteq> Some Panic"
proof -
  let ?w = "snd (Cancel (NewWriter \<lparr>Namespace = ''ns'', Key = ''key1''\<rparr>))"
  let ?t = "\<lparr>Unix = 1700000000, Nanosecond = 0\<rparr>"
  have h: "w_buffer ?w = None"
    by (simp add: Cancel_def)
  note th = finalized_writer [of ?w ?t "[]"]
  have a: "Commit ?t ?w [] = (Some AlreadyCommitted, ?w, [])"
    using th [THEN conjunct1] h by blast
  have b: "Cancel ?w = (None, ?w)"
    using th [THEN conjunct2, THEN conjunct2, THEN conjunct1] h by blast
  have c: "fst (Commit ?t ?w []) \<noteq> Some Panic"
    by (simp add: a)
  from h a b c show ?thesis by blast
qed

text \<open>
  The claim as stated fails for \<open>Cancel\<close>: after a successful \<open>Commit\<close> the writer is
  finalized, and \<open>Cancel\<close> on it returns no error.
\<close>

theorem cancel_after_commit_counterexample:
  "fst (Commit \<lparr>Unix = 1700000000, Nanosecond = 0\<rparr>
          (NewWriter \<lparr>Namespace = ''ns'', Key = ''key1''\<rparr>) []) = None
   \<and> w_buffer (fst (snd (Commit \<lparr>Unix = 1700000000, Nanosecond = 0\<rparr>
          (NewWriter \<lparr>Namespace = ''ns'', Key = ''key1''\<rparr>) []))) = None
   \<and> fst (Cancel (fst (snd (Commit \<lparr>Unix = 1700000000, Nanosecond = 0\<rparr>
          (NewWriter \<lparr>Namespace = ''ns'', Key = ''key1''\<rparr>) [])))) = None"
  by (simp add: Commit_def NewWriter_def Cancel_def db_Update_def txn_Set_def)

section \<open>The writer: facts\<close>

lemma Write_ok:
  assumes "w_buffer w = Some buf" and "0 \<le> w_offset w"
    and "w_offset w + int (length p) \<le> int (length buf)"
  shows "Write w p =
    (length p, None,
     w\<lparr>w_buffer := Some (take (nat (w_offset w)) buf @ p @ drop (nat (w_offset w) + length p) buf),
       w_offset := w_offset w + int (length p),
       w_length := max (w_length w) (w_offset w + int (length p))\<rparr>)"
  using assms by (simp add: Write_def Let_def max_def)

lemma writer_Seek_ok:
  "writer_Seek w off SeekStart = (off, None, w\<lparr>w_offset := off, w_length := max (w_length w) off\<rparr>)"
  by (simp add: writer_Seek_def Let_def max_def)

lemma Commit_ok:
  assumes "w_buffer w = Some buf" and "0 \<le> w_offset w" and "w_offset w \<le> int (length buf)"
  shows "Commit now w d =
    (None, w\<lparr>w_buffer := None\<rparr>,
     db_write (key (w_ref w) now (w_offset w), Some (take (nat (w_offset w)) buf)) d)"
  using assms by (simp add: Commit_def db_Update_def txn_Set_def db_commit_def)

lemma Create_fresh:
  "Create fresh_store ref
     = (NewWriter ref, None, \<lparr>db = [(namespacePrefix @ Namespace ref, [CHR 0x01])],
                               namespaces = [Namespace ref]\<rparr>)"
  by (simp add: Create_def ensureNamespace_def fresh_store_def db_Update_def txn_Set_def
      db_commit_def)

section \<open>Reading: facts\<close>

lemma prefix_not_less: "prefix p k \<Longrightarrow> \<not> k < (p :: 'a :: linorder list)"
proof (induction p arbitrary: k)
  case Nil
  show ?case by simp
next
  case (Cons a p)
  from Cons.prems obtain k' where k: "k = a # k'" and p: "prefix p k'"
    by (cases k) simp_all
  from Cons.IH [OF p] show ?case
    unfolding k by simp
qed

lemma it_Seek_prefix:
  assumes "\<forall>kv \<in> set it. prefix p (fst kv)"
  shows "it_Seek it p = it"
proof (cases it)
  case Nil
  then show ?thesis by (simp add: it_Seek_def)
next
  case (Cons kv rest)
  with assms have "\<not> fst kv < p"
    by (simp add: prefix_not_less)
  with Cons show ?thesis by (simp add: it_Seek_def)
qed

lemma NewIterator_View_prefix:
  "NewIterator \<lparr>update = False, snapshot = d, pendingWrites = []\<rparr> (Some p)
     = sort_key fst (filter (\<lambda>kv. prefix p (fst kv)) d)"
  by (simp add: NewIterator_def filter_sort)

lemma NewIterator_Update_prefix:
  "NewIterator \<lparr>update = True, snapshot = d, pendingWrites = []\<rparr> (Some p)
     = sort_key fst (filter (\<lambda>kv. prefix p (fst kv)) d)"
  by (simp add: NewIterator_def db_commit_def filter_sort)

lemma NewReader_eq:
  "NewReader d ref =
     (case sort_key fst (filter (\<lambda>kv. prefix (keyPrefix ref) (fst kv)) d) of
        [] \<Rightarrow> Inl MissingBlob
      | item # rest \<Rightarrow>
          Inr \<lparr>r_offset = 0, r_length = int (length (snd item)), r_buffer = snd item\<rparr>)"
proof -
  let ?it = "sort_key fst (filter (\<lambda>kv. prefix (keyPrefix ref) (fst kv)) d)"
  have all: "\<forall>kv \<in> set ?it. prefix (keyPrefix ref) (fst kv)"
    by simp
  have seek: "it_Seek ?it (keyPrefix ref) = ?it"
    using all by (rule it_Seek_prefix)
  have unf: "NewReader d ref =
     (case (case (case ?it of
                    [] \<Rightarrow> (\<lparr>r_offset = 0, r_length = 0, r_buffer = []\<rparr>, False)
                  | item # rest \<Rightarrow>
                      if prefix (keyPrefix ref) (fst item)
                      then (\<lparr>r_offset = 0, r_length = 0, r_buffer = snd item\<rparr>, True)
                      else (\<lparr>r_offset = 0, r_length = 0, r_buffer = []\<rparr>, False)) of
              (r, found) \<Rightarrow> (r\<lparr>r_length := int (length (r_buffer r))\<rparr>, found)) of
        (r, found) \<Rightarrow> if \<not> found then Inl MissingBlob else Inr r)"
    unfolding NewReader_def db_View_def NewIterator_View_prefix Let_def seek
    by (simp split: list.split prod.split)
  show ?thesis
  proof (cases ?it)
    case Nil
    show ?thesis unfolding unf Nil by simp
  next
    case (Cons item rest)
    then have "item \<in> set ?it" by simp
    with all have "prefix (keyPrefix ref) (fst item)" by blast
    then show ?thesis unfolding unf Cons by simp
  qed
qed

lemma rall_loop_reads:
  assumes "0 \<le> r_offset r" and "r_offset r \<le> int (length (r_buffer r))"
    and "r_length r = int (length (r_buffer r))" and "length b \<le> c"
  shows "rall_loop grow b c r
     = Some (b @ drop (nat (r_offset r)) (r_buffer r), None,
             r\<lparr>r_offset := int (length (r_buffer r))\<rparr>)"
  using assms
proof (induction "length (r_buffer r) - nat (r_offset r)" arbitrary: b c r rule: less_induct)
  case less
  define c' where "c' = (if length b = c then max (grow c) (c + 1) else c)"
  define p where "p = replicate (c' - length b) (CHR 0x00)"
  have c: "length b < c'" using less.prems(4) by (auto simp: c'_def)
  have unf: "rall_loop grow b c r =
     (case Read r p of
        (n, err, r, p) \<Rightarrow>
          (case err of
             Some e \<Rightarrow> Some (b @ take n p, (if e = EOF then None else Some e), r)
           | None \<Rightarrow> rall_loop grow (b @ take n p) c' r))"
    unfolding c'_def p_def by (subst rall_loop.simps) (simp only: Let_def)
  show ?case
  proof (cases "r_offset r \<ge> r_length r")
    case True
    with less.prems have o: "r_offset r = int (length (r_buffer r))" by simp
    have "Read r p = (0, Some EOF, r, p)"
      using True by (simp add: Read_def)
    then have "rall_loop grow b c r = Some (b, None, r)"
      unfolding unf by simp
    moreover have "r\<lparr>r_offset := int (length (r_buffer r))\<rparr> = r"
      using o by simp
    ultimately show ?thesis using o by simp
  next
    case False
    define src where "src = drop (nat (r_offset r)) (r_buffer r)"
    define n where "n = min (length p) (length src)"
    define r' where "r' = r\<lparr>r_offset := r_offset r + int n\<rparr>"
    from False less.prems have lt: "nat (r_offset r) < length (r_buffer r)" by linarith
    have lp: "0 < length p" using c by (simp add: p_def)
    have ls: "length src = length (r_buffer r) - nat (r_offset r)" by (simp add: src_def)
    have n: "0 < n" using lp lt ls by (simp add: n_def)
    have nle: "n \<le> length (r_buffer r) - nat (r_offset r)" using ls by (simp add: n_def)
    have rd: "Read r p = (n, None, r', take n src @ drop n p)"
      using False less.prems by (simp add: Read_def Let_def n_def src_def r'_def)
    have tk: "take n (take n src @ drop n p) = take n src"
      using nle ls by simp
    have step: "rall_loop grow b c r = rall_loop grow (b @ take n src) c' r'"
      unfolding unf rd by (simp only: prod.case option.case tk)
    have off: "nat (r_offset r') = nat (r_offset r) + n"
      using less.prems(1) by (simp add: nat_add_distrib r'_def)
    have buf: "r_buffer r' = r_buffer r" by (simp add: r'_def)
    have dec: "length (r_buffer r') - nat (r_offset r') < length (r_buffer r) - nat (r_offset r)"
      using n lt nle unfolding off buf by linarith
    have p1: "0 \<le> r_offset r'" using less.prems(1) by (simp add: r'_def)
    have p2: "r_offset r' \<le> int (length (r_buffer r'))"
      using less.prems(1) lt nle by (simp add: r'_def)
    have p3: "r_length r' = int (length (r_buffer r'))"
      using less.prems(3) by (simp add: r'_def)
    have p4: "length (b @ take n src) \<le> c'"
      using c lp by (simp add: n_def p_def)
    have ih: "rall_loop grow (b @ take n src) c' r'
       = Some ((b @ take n src) @ drop (nat (r_offset r')) (r_buffer r'), None,
               r'\<lparr>r_offset := int (length (r_buffer r'))\<rparr>)"
      by (rule less.hyps [OF dec p1 p2 p3 p4])
    have "drop (nat (r_offset r')) (r_buffer r') = drop n src"
      unfolding off buf src_def by (simp add: add.commute)
    then have cat: "(b @ take n src) @ drop (nat (r_offset r')) (r_buffer r') = b @ src"
      by simp
    show ?thesis
      unfolding step ih cat by (simp add: r'_def src_def)
  qed
qed

lemma rall_reads:
  "rall grow \<lparr>r_offset = 0, r_length = int (length v), r_buffer = v\<rparr>
     = Some (v, None, \<lparr>r_offset = int (length v), r_length = int (length v), r_buffer = v\<rparr>)"
  using rall_loop_reads [of "\<lparr>r_offset = 0, r_length = int (length v), r_buffer = v\<rparr>" "[]" 1 grow]
  by (simp add: rall_def)

section \<open>Write, commit, open, read\<close>

lemma run_wops_writes:
  assumes "w_buffer w = Some buf" and "0 \<le> w_offset w"
    and "w_offset w + int (length (concat ps)) \<le> int (length buf)"
    and "w_offset w \<le> w_length w"
  shows "run_wops w (map DoWrite ps) =
    (None,
     w\<lparr>w_buffer := Some (take (nat (w_offset w)) buf @ concat ps
                          @ drop (nat (w_offset w) + length (concat ps)) buf),
       w_offset := w_offset w + int (length (concat ps)),
       w_length := max (w_length w) (w_offset w + int (length (concat ps)))\<rparr>)"
  using assms
proof (induction ps arbitrary: w buf)
  case Nil
  then show ?case by (simp add: max_def)
next
  case (Cons p ps)
  define o' where "o' = nat (w_offset w)"
  define buf' where "buf' = take o' buf @ p @ drop (o' + length p) buf"
  define w' where "w' = w\<lparr>w_buffer := Some buf', w_offset := w_offset w + int (length p),
       w_length := max (w_length w) (w_offset w + int (length p))\<rparr>"
  have o: "w_offset w = int o'" using Cons.prems(2) by (simp add: o'_def)
  have le: "o' + length p + length (concat ps) \<le> length buf"
    using Cons.prems(3) unfolding o by simp
  have wr: "Write w p = (length p, None, w')"
    using Cons.prems(1,2,3) le unfolding w'_def buf'_def o'_def
    by (subst Write_ok [where buf = buf]) simp_all
  have lb: "length buf' = length buf"
    using le by (simp add: buf'_def)
  have b1: "w_buffer w' = Some buf'" by (simp add: w'_def)
  have b2: "0 \<le> w_offset w'" using Cons.prems(2) by (simp add: w'_def)
  have b3: "w_offset w' + int (length (concat ps)) \<le> int (length buf')"
    using le unfolding lb by (simp add: w'_def o)
  have b4: "w_offset w' \<le> w_length w'" by (simp add: w'_def)
  have o2: "nat (w_offset w') = o' + length p"
    by (simp add: w'_def o)
  have t: "take (o' + length p) buf' = take o' buf @ p"
    using le by (simp add: buf'_def)
  have d: "drop (o' + length p + length (concat ps)) buf'
           = drop (o' + length p + length (concat ps)) buf"
    using le by (simp add: buf'_def add.commute add.left_commute)
  have "run_wops w (map DoWrite (p # ps)) = run_wops w' (map DoWrite ps)"
    by (simp add: wr)
  also note Cons.IH [OF b1 b2 b3 b4]
  finally show ?case
    unfolding o2 t d
    by (simp add: w'_def o'_def [symmetric] o add.assoc max.assoc)
qed

lemma marker_not_key: "namespacePrefix @ x \<noteq> key r t n"
  by (simp add: key_def namespacePrefix_def blobPrefix_def Let_def)

lemma marker_not_blob: "\<not> prefix (keyPrefix r) (namespacePrefix @ x)"
  by (simp add: keyPrefix_def namespacePrefix_def blobPrefix_def)

lemma key_has_prefix: "prefix (keyPrefix r) (key r t n)"
  by (simp only: key_suffix prefixI)

lemma write_session_fresh:
  assumes "length (concat ps) \<le> 5000000"
  shows "write_session fresh_store ref (map DoWrite ps) now =
    (None, \<lparr>db = [(key ref now (int (length (concat ps))), concat ps),
                   (namespacePrefix @ Namespace ref, [CHR 0x01])],
            namespaces = [Namespace ref]\<rparr>)"
proof -
  let ?buf = "replicate 5000000 (CHR 0x00)"
  have nw: "w_buffer (NewWriter ref) = Some ?buf" "0 \<le> w_offset (NewWriter ref)"
    "w_offset (NewWriter ref) + int (length (concat ps)) \<le> int (length ?buf)"
    "w_offset (NewWriter ref) \<le> w_length (NewWriter ref)"
    using assms by (simp_all add: NewWriter_def)
  note run = run_wops_writes [OF nw]
  define w where "w = snd (run_wops (NewWriter ref) (map DoWrite ps))"
  have rw: "run_wops (NewWriter ref) (map DoWrite ps) = (None, w)"
    unfolding w_def run by simp
  have wb: "w_buffer w = Some (concat ps @ drop (length (concat ps)) ?buf)"
    unfolding w_def run by (simp add: NewWriter_def)
  have wo: "w_offset w = int (length (concat ps))"
    unfolding w_def run by (simp add: NewWriter_def)
  have wr: "w_ref w = ref"
    unfolding w_def run by (simp add: NewWriter_def)
  have c1: "0 \<le> w_offset w" by (simp add: wo)
  have c2: "w_offset w \<le> int (length (concat ps @ drop (length (concat ps)) ?buf))"
    using assms by (simp add: wo)
  show ?thesis
    unfolding write_session_def Create_fresh
    by (simp add: rw Commit_ok [OF wb c1 c2] wo wr marker_not_key)
qed

lemma Open_single:
  "Open \<lparr>db = [(key ref now n, v), (namespacePrefix @ x, m)], namespaces = nss\<rparr> ref
     = Inr \<lparr>r_offset = 0, r_length = int (length v), r_buffer = v\<rparr>"
  by (simp add: Open_def NewReader_eq key_has_prefix marker_not_blob)

text \<open>
  C1. For every sequence of byte strings of total length at most 5,000,000 (one
  \<open>Write\<close> call or several), written in order to a fresh blob of a fresh store and
  committed, the session returns no error, and opening the reference and reading to the
  end of the stream returns (the read loop terminates) exactly the concatenation.
\<close>

theorem write_read_identity:
  assumes "length (concat ps) \<le> 5000000"
  shows "fst (write_session fresh_store ref (map DoWrite ps) now) = None
    \<and> read_back grow (snd (write_session fresh_store ref (map DoWrite ps) now)) ref
        = Some (Inr (concat ps))"
  unfolding write_session_fresh [OF assms]
  by (simp add: read_back_def Open_single rall_reads)

theorem write_read_identity_witness:
  "length (concat (replicate 10 ''test'')) \<le> 5000000
   \<and> fst (write_session fresh_store \<lparr>Namespace = ''ns'', Key = ''key1''\<rparr>
             (map DoWrite (replicate 10 ''test'')) \<lparr>Unix = 1700000000, Nanosecond = 0\<rparr>) = None
   \<and> read_back (\<lambda>c. 2 * c)
        (snd (write_session fresh_store \<lparr>Namespace = ''ns'', Key = ''key1''\<rparr>
             (map DoWrite (replicate 10 ''test'')) \<lparr>Unix = 1700000000, Nanosecond = 0\<rparr>))
        \<lparr>Namespace = ''ns'', Key = ''key1''\<rparr>
       = Some (Inr ''testtesttesttesttesttesttesttesttesttest'')
   \<and> length ''testtesttesttesttesttesttesttesttesttest'' = 40"
proof -
  have c: "concat (replicate 10 ''test'') = ''testtesttesttesttesttesttesttesttesttest''"
    by code_simp
  have h: "length (concat (replicate 10 ''test'')) \<le> 5000000"
    unfolding c by simp
  note th = write_read_identity [OF h, of "\<lparr>Namespace = ''ns'', Key = ''key1''\<rparr>"
      "\<lparr>Unix = 1700000000, Nanosecond = 0\<rparr>" "\<lambda>c. 2 * c"]
  from h th show ?thesis
    unfolding c by simp
qed

section \<open>Seeks, and what \<open>Commit\<close> stores\<close>

lemma session_read_back:
  assumes "run_wops (NewWriter ref) ops = (None, w)" and "w_buffer w = Some buf"
    and "0 \<le> w_offset w" and "w_offset w \<le> int (length buf)" and "w_ref w = ref"
  shows "write_session fresh_store ref ops now =
    (None, \<lparr>db = [(key ref now (w_offset w), take (nat (w_offset w)) buf),
                   (namespacePrefix @ Namespace ref, [CHR 0x01])],
            namespaces = [Namespace ref]\<rparr>)"
    and "read_back grow (snd (write_session fresh_store ref ops now)) ref
          = Some (Inr (take (nat (w_offset w)) buf))"
proof -
  show s: "write_session fresh_store ref ops now =
    (None, \<lparr>db = [(key ref now (w_offset w), take (nat (w_offset w)) buf),
                   (namespacePrefix @ Namespace ref, [CHR 0x01])],
            namespaces = [Namespace ref]\<rparr>)"
    unfolding write_session_def Create_fresh
    by (simp add: assms(1) Commit_ok [OF assms(2,3,4)] assms(5) marker_not_key)
  show "read_back grow (snd (write_session fresh_store ref ops now)) ref
          = Some (Inr (take (nat (w_offset w)) buf))"
    unfolding s by (simp add: read_back_def Open_single rall_reads del: length_take)
qed

lemma run_sparse:
  assumes "0 \<le> k" and "k + int (length x) \<le> 5000000"
  shows "run_wops (NewWriter ref) [DoSeek k, DoWrite x] =
    (None, \<lparr>w_offset = k + int (length x), w_length = k + int (length x),
            w_buffer = Some (replicate (nat k) (CHR 0x00) @ x
                             @ replicate (5000000 - (nat k + length x)) (CHR 0x00)),
            w_ref = ref\<rparr>)"
proof -
  let ?w = "\<lparr>w_offset = k, w_length = k,
             w_buffer = Some (replicate 5000000 (CHR 0x00)), w_ref = ref\<rparr>"
  have sk: "writer_Seek (NewWriter ref) k SeekStart = (k, None, ?w)"
    using assms(1) by (simp add: writer_Seek_ok NewWriter_def max_def)
  have m: "min (nat k) 5000000 = nat k"
    using assms by simp
  have wr: "Write ?w x = (length x, None,
     \<lparr>w_offset = k + int (length x), w_length = k + int (length x),
      w_buffer = Some (replicate (nat k) (CHR 0x00) @ x
                       @ replicate (5000000 - (nat k + length x)) (CHR 0x00)),
      w_ref = ref\<rparr>)"
    using assms
    by (subst Write_ok [where buf = "replicate 5000000 (CHR 0x00)"]) (simp_all add: m max_def)
  show ?thesis
    by (simp add: sk wr)
qed

lemma run_test_scenario:
  "run_wops (NewWriter ref)
     [DoSeek 10, DoWrite ''1234567890'', DoWrite ''abcdefghijkl'', DoSeek 0, DoWrite ''ST'',
      DoWrite ''MNB'', DoSeek 31] =
    (None, \<lparr>w_offset = 31, w_length = 32,
            w_buffer = Some (''STMNB'' @ replicate 5 (CHR 0x00) @ ''1234567890abcdefghijkl''
                             @ replicate 4999968 (CHR 0x00)),
            w_ref = ref\<rparr>)"
  by (simp add: NewWriter_def writer_Seek_ok Write_ok)

lemma run_claimed_scenario:
  "run_wops (NewWriter ref)
     [DoSeek 10, DoWrite ''1234567890'', DoSeek 0, DoWrite ''ST'', DoWrite ''MNB'', DoSeek 31] =
    (None, \<lparr>w_offset = 31, w_length = 31,
            w_buffer = Some (''STMNB'' @ replicate 5 (CHR 0x00) @ ''1234567890''
                             @ replicate 4999980 (CHR 0x00)),
            w_ref = ref\<rparr>)"
  by (simp add: NewWriter_def writer_Seek_ok Write_ok)

lemma replicate_5: "replicate 5 x = [x, x, x, x, x]"
  by (simp add: numeral_eq_Suc)

lemma replicate_11: "replicate 11 x = [x, x, x, x, x, x, x, x, x, x, x]"
  by (simp add: numeral_eq_Suc)

lemma test_scenario_read_back:
"read_back grow
       (snd (write_session fresh_store ref
               [DoSeek 10, DoWrite ''1234567890'', DoWrite ''abcdefghijkl'', DoSeek 0,
                DoWrite ''ST'', DoWrite ''MNB'', DoSeek 31] now)) ref
      = Some (Inr (''STMNB'' @ replicate 5 (CHR 0x00) @ ''1234567890abcdefghijk''))"
proof -
  let ?b = "''STMNB'' @ replicate 5 (CHR 0x00) @ ''1234567890abcdefghijkl''
             @ replicate 4999968 (CHR 0x00)"
  let ?v = "\<lparr>w_offset = 31, w_length = 32, w_buffer = Some ?b, w_ref = ref\<rparr>"
  have d1: "w_buffer ?v = Some ?b" by simp
  have d2: "0 \<le> w_offset ?v" by simp
  have d3: "w_offset ?v \<le> int (length ?b)" by simp
  have d4: "w_ref ?v = ref" by simp
  have t: "take (nat (w_offset ?v)) ?b
            = ''STMNB'' @ replicate 5 (CHR 0x00) @ ''1234567890abcdefghijk''"
    by simp
  show ?thesis
    unfolding session_read_back(2) [OF run_test_scenario d1 d2 d3 d4] t ..
qed

lemma claimed_scenario_read_back:
"read_back grow
       (snd (write_session fresh_store ref
               [DoSeek 10, DoWrite ''1234567890'', DoSeek 0,
                DoWrite ''ST'', DoWrite ''MNB'', DoSeek 31] now)) ref
      = Some (Inr (''STMNB'' @ replicate 5 (CHR 0x00) @ ''1234567890''
                   @ replicate 11 (CHR 0x00)))"
proof -
  let ?b = "''STMNB'' @ replicate 5 (CHR 0x00) @ ''1234567890''
             @ replicate 4999980 (CHR 0x00)"
  let ?v = "\<lparr>w_offset = 31, w_length = 31, w_buffer = Some ?b, w_ref = ref\<rparr>"
  have d1: "w_buffer ?v = Some ?b" by simp
  have d2: "0 \<le> w_offset ?v" by simp
  have d3: "w_offset ?v \<le> int (length ?b)" by simp
  have d4: "w_ref ?v = ref" by simp
  have t: "take (nat (w_offset ?v)) ?b
            = ''STMNB'' @ replicate 5 (CHR 0x00) @ ''1234567890'' @ replicate 11 (CHR 0x00)"
    by simp
  show ?thesis
    unfolding session_read_back(2) [OF run_claimed_scenario d1 d2 d3 d4] t ..
qed

text \<open>
  C8, as amended. Seeking past the current length of a fresh writer is legal: after
  \<open>seek(k)\<close> and \<open>write(x)\<close> within the capacity, the committed payload is \<open>k\<close> zero
  bytes followed by \<open>x\<close>. The interleaving of the package's test, which writes
  \<open>"abcdefghijkl"\<close> after \<open>"1234567890"\<close>, reads back as the 31 bytes
  \<open>"STMNB\\0\\0\\0\\0\\01234567890abcdefghijk"\<close>; the interleaving without that write ends
  in eleven zero bytes instead.
\<close>

theorem seek_gap_is_zero_filled:
  assumes "0 \<le> k" and "k + int (length x) \<le> 5000000"
  shows "fst (write_session fresh_store ref [DoSeek k, DoWrite x] now) = None
    \<and> read_back grow (snd (write_session fresh_store ref [DoSeek k, DoWrite x] now)) ref
        = Some (Inr (replicate (nat k) (CHR 0x00) @ x))
    \<and> read_back grow
         (snd (write_session fresh_store ref
                 [DoSeek 10, DoWrite ''1234567890'', DoWrite ''abcdefghijkl'', DoSeek 0,
                  DoWrite ''ST'', DoWrite ''MNB'', DoSeek 31] now)) ref
        = Some (Inr (''STMNB'' @ replicate 5 (CHR 0x00) @ ''1234567890abcdefghijk''))
    \<and> read_back grow
         (snd (write_session fresh_store ref
                 [DoSeek 10, DoWrite ''1234567890'', DoSeek 0,
                  DoWrite ''ST'', DoWrite ''MNB'', DoSeek 31] now)) ref
        = Some (Inr (''STMNB'' @ replicate 5 (CHR 0x00) @ ''1234567890''
                     @ replicate 11 (CHR 0x00)))"
proof -
  let ?buf = "replicate (nat k) (CHR 0x00) @ x
               @ replicate (5000000 - (nat k + length x)) (CHR 0x00)"
  let ?w = "\<lparr>w_offset = k + int (length x), w_length = k + int (length x),
             w_buffer = Some ?buf, w_ref = ref\<rparr>"
  have le: "nat k + length x \<le> 5000000"
    using assms by linarith
  have len: "length ?buf = 5000000"
    using le by simp
  have c1: "w_buffer ?w = Some ?buf" by simp
  have c2: "0 \<le> w_offset ?w" using assms(1) by simp
  have c3: "w_offset ?w \<le> int (length ?buf)" unfolding len using assms(2) by simp
  have c4: "w_ref ?w = ref" by simp
  note sb = session_read_back [OF run_sparse [OF assms] c1 c2 c3 c4]
  have tk: "take (nat (w_offset ?w)) ?buf = replicate (nat k) (CHR 0x00) @ x"
    using assms(1) by (simp add: nat_add_distrib)
  have 1: "fst (write_session fresh_store ref [DoSeek k, DoWrite x] now) = None"
    unfolding sb(1) by simp
  have 2: "read_back grow (snd (write_session fresh_store ref [DoSeek k, DoWrite x] now)) ref
        = Some (Inr (replicate (nat k) (CHR 0x00) @ x))"
    unfolding sb(2) tk ..
  note 3 = test_scenario_read_back [of grow ref now]
  note 4 = claimed_scenario_read_back [of grow ref now]
  from 1 2 3 4 show ?thesis by simp
qed

theorem seek_gap_is_zero_filled_witness:
  "(0::int) \<le> 10 \<and> 10 + int (length ''1234567890'') \<le> 5000000
   \<and> fst (write_session fresh_store \<lparr>Namespace = ''ns'', Key = ''key1''\<rparr>
            [DoSeek 10, DoWrite ''1234567890''] \<lparr>Unix = 1700000000, Nanosecond = 0\<rparr>) = None
   \<and> read_back (\<lambda>c. 2 * c)
        (snd (write_session fresh_store \<lparr>Namespace = ''ns'', Key = ''key1''\<rparr>
            [DoSeek 10, DoWrite ''1234567890''] \<lparr>Unix = 1700000000, Nanosecond = 0\<rparr>))
        \<lparr>Namespace = ''ns'', Key = ''key1''\<rparr>
       = Some (Inr (replicate 10 (CHR 0x00) @ ''1234567890''))"
proof -
  have h: "(0::int) \<le> 10" "10 + int (length ''1234567890'') \<le> 5000000"
    by simp_all
  note th = seek_gap_is_zero_filled [OF h, of "\<lparr>Namespace = ''ns'', Key = ''key1''\<rparr>"
      "\<lparr>Unix = 1700000000, Nanosecond = 0\<rparr>" "\<lambda>c. 2 * c"]
  have n: "nat 10 = (10::nat)" by simp
  from h th [THEN conjunct1] th [THEN conjunct2, THEN conjunct1] show ?thesis
    unfolding n by blast
qed

text \<open>
  The interleaving as the claim lists it does not give the 31 bytes that the claim
  states: its last eleven bytes are zero.
\<close>

theorem claimed_interleaving_counterexample:
  "read_back (\<lambda>c. 2 * c)
     (snd (write_session fresh_store \<lparr>Namespace = ''ns'', Key = ''key1''\<rparr>
             [DoSeek 10, DoWrite ''1234567890'', DoSeek 0, DoWrite ''ST'', DoWrite ''MNB'',
              DoSeek 31] \<lparr>Unix = 1700000000, Nanosecond = 0\<rparr>))
     \<lparr>Namespace = ''ns'', Key = ''key1''\<rparr>
   \<noteq> Some (Inr (''STMNB'' @ replicate 5 (CHR 0x00) @ ''1234567890abcdefghijk''))"
  unfolding claimed_scenario_read_back by (simp add: replicate_11)

section \<open>What \<open>Commit\<close> stores\<close>

lemma filter_db_write_other:
  assumes "\<not> P k"
  shows "filter (\<lambda>kv. P (fst kv)) (db_write (k, v) d) = filter (\<lambda>kv. P (fst kv)) d"
proof -
  have "filter (\<lambda>kv. P (fst kv)) (filter (\<lambda>kv. fst kv \<noteq> k) d) = filter (\<lambda>kv. P (fst kv)) d"
    using assms by (auto intro: filter_cong)
  with assms show ?thesis by (cases v) simp_all
qed

lemma Open_Create: "Open (snd (snd (Create b ref))) ref' = Open b ref'"
proof -
  have "filter (\<lambda>kv. prefix (keyPrefix ref') (fst kv))
          (db_write (namespacePrefix @ Namespace ref, Some [CHR 0x01]) (db b))
        = filter (\<lambda>kv. prefix (keyPrefix ref') (fst kv)) (db b)"
    using marker_not_blob by (rule filter_db_write_other)
  then show ?thesis
    by (simp add: Open_def Create_def ensureNamespace_def db_Update_def txn_Set_def db_commit_def
        NewReader_eq)
qed

lemma Commit_None:
  assumes "fst (Commit now w d) = None"
  shows "\<exists>buf. w_buffer w = Some buf \<and> 0 \<le> w_offset w \<and> w_offset w \<le> int (length buf)"
  using assms by (auto simp: Commit_def split: option.splits if_splits)

text \<open>
  C2, as amended. For every writer on which \<open>Commit\<close> succeeds, the buffer was not
  released and the cursor is within it; \<open>Commit\<close> encodes the key from the reference,
  the current time and the cursor position \<open>offset\<close> (not the logical length), and
  stores exactly \<open>buffer[0:offset]\<close> under it in one write of one transaction, so that
  this key maps to these bytes afterwards and every other key is as before. \<open>Create\<close>
  changes nothing that \<open>Open\<close> sees, and \<open>Write\<close> and \<open>Seek\<close> do not touch the
  store: nothing is visible to readers before \<open>Commit\<close>.
\<close>

theorem commit_stores_up_to_cursor:
  "(fst (Commit now w d) = None \<longrightarrow>
      (\<exists>buf. w_buffer w = Some buf \<and> 0 \<le> w_offset w \<and> w_offset w \<le> int (length buf)
         \<and> Commit now w d
             = (None, w\<lparr>w_buffer := None\<rparr>,
                db_write (key (w_ref w) now (w_offset w), Some (take (nat (w_offset w)) buf)) d)
         \<and> map_of (snd (snd (Commit now w d))) (key (w_ref w) now (w_offset w))
             = Some (take (nat (w_offset w)) buf)
         \<and> (\<forall>k. k \<noteq> key (w_ref w) now (w_offset w) \<longrightarrow>
               map_of (snd (snd (Commit now w d))) k = map_of d k)))
   \<and> (\<forall>ref'. Open (snd (snd (Create b ref))) ref' = Open b ref')"
proof -
  have 1: "\<exists>buf. w_buffer w = Some buf \<and> 0 \<le> w_offset w \<and> w_offset w \<le> int (length buf)
         \<and> Commit now w d
             = (None, w\<lparr>w_buffer := None\<rparr>,
                db_write (key (w_ref w) now (w_offset w), Some (take (nat (w_offset w)) buf)) d)
         \<and> map_of (snd (snd (Commit now w d))) (key (w_ref w) now (w_offset w))
             = Some (take (nat (w_offset w)) buf)
         \<and> (\<forall>k. k \<noteq> key (w_ref w) now (w_offset w) \<longrightarrow>
               map_of (snd (snd (Commit now w d))) k = map_of d k)"
    if "fst (Commit now w d) = None"
  proof -
    from Commit_None [OF that] obtain buf where
      b: "w_buffer w = Some buf" "0 \<le> w_offset w" "w_offset w \<le> int (length buf)"
      by blast
    note c = Commit_ok [OF b, of now d]
    have m: "map_of (filter (\<lambda>kv. fst kv \<noteq> k') d) k = map_of d k" if "k \<noteq> k'" for k k'
      using that by (induction d) auto
    have o: "map_of (snd (snd (Commit now w d))) k = map_of d k"
      if "k \<noteq> key (w_ref w) now (w_offset w)" for k
      using that unfolding c by (simp add: m)
    have s: "map_of (snd (snd (Commit now w d))) (key (w_ref w) now (w_offset w))
             = Some (take (nat (w_offset w)) buf)"
      unfolding c by simp
    from b c s o show ?thesis by blast
  qed
  have 2: "Open (snd (snd (Create b ref))) ref' = Open b ref'" for ref'
    by (rule Open_Create)
  from 1 2 show ?thesis by blast
qed

theorem commit_stores_up_to_cursor_witness:
  "fst (Commit \<lparr>Unix = 1700000000, Nanosecond = 0\<rparr>
          \<lparr>w_offset = 2, w_length = 4, w_buffer = Some ''test'',
            w_ref = \<lparr>Namespace = ''ns'', Key = ''key1''\<rparr>\<rparr> []) = None
   \<and> Commit \<lparr>Unix = 1700000000, Nanosecond = 0\<rparr>
          \<lparr>w_offset = 2, w_length = 4, w_buffer = Some ''test'',
            w_ref = \<lparr>Namespace = ''ns'', Key = ''key1''\<rparr>\<rparr> []
       = (None,
          \<lparr>w_offset = 2, w_length = 4, w_buffer = None,
            w_ref = \<lparr>Namespace = ''ns'', Key = ''key1''\<rparr>\<rparr>,
          [(key \<lparr>Namespace = ''ns'', Key = ''key1''\<rparr> \<lparr>Unix = 1700000000, Nanosecond = 0\<rparr> 2,
            ''te'')])
   \<and> ''x'' \<noteq> key \<lparr>Namespace = ''ns'', Key = ''key1''\<rparr> \<lparr>Unix = 1700000000, Nanosecond = 0\<rparr> 2
   \<and> map_of (snd (snd (Commit \<lparr>Unix = 1700000000, Nanosecond = 0\<rparr>
          \<lparr>w_offset = 2, w_length = 4, w_buffer = Some ''test'',
            w_ref = \<lparr>Namespace = ''ns'', Key = ''key1''\<rparr>\<rparr> []))) ''x'' = None"
proof -
  let ?w = "\<lparr>w_offset = 2, w_length = 4, w_buffer = Some ''test'',
            w_ref = \<lparr>Namespace = ''ns'', Key = ''key1''\<rparr>\<rparr>"
  let ?t = "\<lparr>Unix = 1700000000, Nanosecond = 0\<rparr>"
  have h: "fst (Commit ?t ?w []) = None"
    by (simp add: Commit_def db_Update_def txn_Set_def)
  have n: "''x'' \<noteq> key \<lparr>Namespace = ''ns'', Key = ''key1''\<rparr> ?t 2"
    by (simp add: key_def blobPrefix_def Let_def)
  from commit_stores_up_to_cursor [of ?t ?w "[]", THEN conjunct1, rule_format, OF h]
  obtain buf where b: "w_buffer ?w = Some buf"
    and c: "Commit ?t ?w []
             = (None, ?w\<lparr>w_buffer := None\<rparr>,
                db_write (key (w_ref ?w) ?t (w_offset ?w), Some (take (nat (w_offset ?w)) buf)) [])"
    and o: "\<forall>k. k \<noteq> key (w_ref ?w) ?t (w_offset ?w) \<longrightarrow>
               map_of (snd (snd (Commit ?t ?w []))) k = map_of [] k"
    by blast
  from b have buf: "buf = ''test''" by simp
  have c': "Commit ?t ?w []
       = (None,
          \<lparr>w_offset = 2, w_length = 4, w_buffer = None,
            w_ref = \<lparr>Namespace = ''ns'', Key = ''key1''\<rparr>\<rparr>,
          [(key \<lparr>Namespace = ''ns'', Key = ''key1''\<rparr> ?t 2, ''te'')])"
    using c unfolding buf by simp
  have o': "map_of (snd (snd (Commit ?t ?w []))) ''x'' = None"
    using o [rule_format, of "''x''"] n by simp
  from h c' n o' show ?thesis by blast
qed

text \<open>
  The claim as stated fails: after writing ten bytes and seeking back to offset 0 the
  logical length is 10, and \<open>Commit\<close> stores the empty payload under a key of size 0.
\<close>

theorem commit_after_seek_back_counterexample:
  "w_length (snd (run_wops (NewWriter \<lparr>Namespace = ''ns'', Key = ''key1''\<rparr>)
                    [DoWrite ''1234567890'', DoSeek 0])) = 10
   \<and> write_session fresh_store \<lparr>Namespace = ''ns'', Key = ''key1''\<rparr>
        [DoWrite ''1234567890'', DoSeek 0] \<lparr>Unix = 1700000000, Nanosecond = 0\<rparr>
      = (None,
         \<lparr>db = [(key \<lparr>Namespace = ''ns'', Key = ''key1''\<rparr> \<lparr>Unix = 1700000000, Nanosecond = 0\<rparr> 0,
                 []),
                (namespacePrefix @ ''ns'', [CHR 0x01])],
          namespaces = [''ns'']\<rparr>)
   \<and> read_back (\<lambda>c. 2 * c)
        (snd (write_session fresh_store \<lparr>Namespace = ''ns'', Key = ''key1''\<rparr>
                [DoWrite ''1234567890'', DoSeek 0] \<lparr>Unix = 1700000000, Nanosecond = 0\<rparr>))
        \<lparr>Namespace = ''ns'', Key = ''key1''\<rparr>
      = Some (Inr [])"
proof -
  let ?r = "\<lparr>Namespace = ''ns'', Key = ''key1''\<rparr>"
  let ?b = "''1234567890'' @ replicate 4999990 (CHR 0x00)"
  let ?v = "\<lparr>w_offset = 0, w_length = 10, w_buffer = Some ?b, w_ref = ?r\<rparr>"
  have run: "run_wops (NewWriter ?r) [DoWrite ''1234567890'', DoSeek 0] = (None, ?v)"
    by (simp add: NewWriter_def writer_Seek_ok Write_ok)
  have d1: "w_buffer ?v = Some ?b" by simp
  have d2: "0 \<le> w_offset ?v" by simp
  have d3: "w_offset ?v \<le> int (length ?b)" by simp
  have d4: "w_ref ?v = ?r" by simp
  note sb = session_read_back [OF run d1 d2 d3 d4]
  have a: "w_length (snd (run_wops (NewWriter ?r) [DoWrite ''1234567890'', DoSeek 0])) = 10"
    unfolding run by simp
  have b: "write_session fresh_store ?r [DoWrite ''1234567890'', DoSeek 0]
             \<lparr>Unix = 1700000000, Nanosecond = 0\<rparr>
      = (None,
         \<lparr>db = [(key ?r \<lparr>Unix = 1700000000, Nanosecond = 0\<rparr> 0, []),
                (namespacePrefix @ ''ns'', [CHR 0x01])],
          namespaces = [''ns'']\<rparr>)"
    unfolding sb(1) by simp
  have c: "read_back (\<lambda>c. 2 * c)
        (snd (write_session fresh_store ?r [DoWrite ''1234567890'', DoSeek 0]
                \<lparr>Unix = 1700000000, Nanosecond = 0\<rparr>)) ?r
      = Some (Inr [])"
    unfolding sb(2) by simp
  from a b c show ?thesis by (intro conjI)
qed

section \<open>Delete\<close>

lemma Delete_loop_all:
  assumes "\<forall>kv \<in> set it. prefix pref (fst kv)" and "update txn"
  shows "Delete_loop pref it txn
     = (None, (), txn\<lparr>pendingWrites := rev (map (\<lambda>kv. (fst kv, None)) it) @ pendingWrites txn\<rparr>)"
  using assms
proof (induction it arbitrary: txn)
  case Nil
  show ?case by simp
next
  case (Cons item it)
  let ?txn = "txn\<lparr>pendingWrites := (fst item, None) # pendingWrites txn\<rparr>"
  have d: "txn_Delete txn (fst item) = (None, ?txn)"
    using Cons.prems(2) by (simp add: txn_Delete_def)
  have u: "update ?txn" using Cons.prems(2) by simp
  have a: "\<forall>kv \<in> set it. prefix pref (fst kv)" using Cons.prems(1) by simp
  have p: "prefix pref (fst item)" using Cons.prems(1) by simp
  show ?case
    using p by (simp add: d Cons.IH [OF a u])
qed

lemma db_commit_deletes:
  "db_commit (map (\<lambda>kv. (fst kv, None)) it) d = filter (\<lambda>kv. fst kv \<notin> fst ` set it) d"
proof (induction it)
  case Nil
  show ?case by (simp add: db_commit_def)
next
  case (Cons item it)
  have "db_commit (map (\<lambda>kv. (fst kv, None)) (item # it)) d
        = filter (\<lambda>kv. fst kv \<noteq> fst item) (db_commit (map (\<lambda>kv. (fst kv, None)) it) d)"
    by (simp add: db_commit_def)
  also have "\<dots> = filter (\<lambda>kv. fst kv \<notin> fst ` set (item # it)) d"
    unfolding Cons.IH by (auto intro: filter_cong)
  finally show ?case .
qed

lemma db_commit_rev_deletes:
  "db_commit (rev (map (\<lambda>kv. (fst kv, None)) it)) d = filter (\<lambda>kv. fst kv \<notin> fst ` set it) d"
  using db_commit_deletes [of "rev it" d] by (simp add: rev_map)

lemma Delete_eq:
  "Delete b ref = (None, b\<lparr>db := filter (\<lambda>kv. \<not> prefix (keyPrefix ref) (fst kv)) (db b)\<rparr>)"
proof -
  let ?p = "keyPrefix ref"
  let ?it = "sort_key fst (filter (\<lambda>kv. prefix ?p (fst kv)) (db b))"
  let ?txn = "\<lparr>update = True, snapshot = db b, pendingWrites = []\<rparr>"
  have all: "\<forall>kv \<in> set ?it. prefix ?p (fst kv)" by simp
  have seek: "it_Seek ?it ?p = ?it" using all by (rule it_Seek_prefix)
  have loop: "Delete_loop ?p ?it ?txn
     = (None, (), ?txn\<lparr>pendingWrites := rev (map (\<lambda>kv. (fst kv, None)) ?it) @ pendingWrites ?txn\<rparr>)"
    using all by (rule Delete_loop_all) simp
  have f: "filter (\<lambda>kv. fst kv \<notin> fst ` {x \<in> set (db b). prefix ?p (fst x)}) (db b)
           = filter (\<lambda>kv. \<not> prefix ?p (fst kv)) (db b)"
    by (rule filter_cong) (auto simp: image_iff)
  show ?thesis
    unfolding Delete_def db_Update_def Let_def NewIterator_Update_prefix seek loop
    by (simp add: db_commit_rev_deletes f)
qed

text \<open>
  C3. For every store and every reference, \<open>Delete\<close> returns no error and removes, in
  one transaction, every record whose key starts with \<open>keyPrefix(ref)\<close> (all versions)
  and no other record; \<open>Open\<close> of the reference then fails with "missing blob"; and
  when no record matches, \<open>Delete\<close> returns no error and the store is unchanged.
\<close>

theorem Delete_removes_all_versions:
  "Delete b ref = (None, b\<lparr>db := filter (\<lambda>kv. \<not> prefix (keyPrefix ref) (fst kv)) (db b)\<rparr>)
   \<and> Open (snd (Delete b ref)) ref = Inl MissingBlob
   \<and> ((\<forall>kv \<in> set (db b). \<not> prefix (keyPrefix ref) (fst kv)) \<longrightarrow> Delete b ref = (None, b))"
proof -
  have 1: "Delete b ref
        = (None, b\<lparr>db := filter (\<lambda>kv. \<not> prefix (keyPrefix ref) (fst kv)) (db b)\<rparr>)"
    by (rule Delete_eq)
  have e: "filter (\<lambda>kv. prefix (keyPrefix ref) (fst kv))
             (filter (\<lambda>kv. \<not> prefix (keyPrefix ref) (fst kv)) (db b)) = []"
    by (simp add: filter_empty_conv)
  have 2: "Open (snd (Delete b ref)) ref = Inl MissingBlob"
    unfolding 1 by (simp add: Open_def NewReader_eq e)
  have 3: "Delete b ref = (None, b)" if "\<forall>kv \<in> set (db b). \<not> prefix (keyPrefix ref) (fst kv)"
  proof -
    from that have "filter (\<lambda>kv. \<not> prefix (keyPrefix ref) (fst kv)) (db b) = db b"
      by (simp add: filter_id_conv)
    then show ?thesis unfolding 1 by simp
  qed
  from 1 2 3 show ?thesis by blast
qed

theorem Delete_removes_all_versions_witness:
  "Delete \<lparr>db = [(key \<lparr>Namespace = ''ns'', Key = ''key1''\<rparr> \<lparr>Unix = 100, Nanosecond = 0\<rparr> 10,
                   ''1234567890''),
                  (key \<lparr>Namespace = ''ns'', Key = ''key1''\<rparr> \<lparr>Unix = 200, Nanosecond = 0\<rparr> 3,
                   ''abc''),
                  (key \<lparr>Namespace = ''ns'', Key = ''zzz''\<rparr> \<lparr>Unix = 100, Nanosecond = 0\<rparr> 4,
                   ''wxyz''),
                  (namespacePrefix @ ''ns'', [CHR 0x01])],
            namespaces = [''ns'']\<rparr>
      \<lparr>Namespace = ''ns'', Key = ''key1''\<rparr>
    = (None,
       \<lparr>db = [(key \<lparr>Namespace = ''ns'', Key = ''zzz''\<rparr> \<lparr>Unix = 100, Nanosecond = 0\<rparr> 4,
               ''wxyz''),
              (namespacePrefix @ ''ns'', [CHR 0x01])],
         namespaces = [''ns'']\<rparr>)
   \<and> Open (snd (Delete
          \<lparr>db = [(key \<lparr>Namespace = ''ns'', Key = ''key1''\<rparr> \<lparr>Unix = 100, Nanosecond = 0\<rparr> 10,
                   ''1234567890''),
                  (key \<lparr>Namespace = ''ns'', Key = ''key1''\<rparr> \<lparr>Unix = 200, Nanosecond = 0\<rparr> 3,
                   ''abc''),
                  (key \<lparr>Namespace = ''ns'', Key = ''zzz''\<rparr> \<lparr>Unix = 100, Nanosecond = 0\<rparr> 4,
                   ''wxyz''),
                  (namespacePrefix @ ''ns'', [CHR 0x01])],
            namespaces = [''ns'']\<rparr>
          \<lparr>Namespace = ''ns'', Key = ''key1''\<rparr>))
        \<lparr>Namespace = ''ns'', Key = ''key1''\<rparr>
      = Inl MissingBlob
   \<and> Delete \<lparr>db = [(key \<lparr>Namespace = ''ns'', Key = ''zzz''\<rparr> \<lparr>Unix = 100, Nanosecond = 0\<rparr> 4,
                   ''wxyz''),
                  (namespacePrefix @ ''ns'', [CHR 0x01])],
            namespaces = [''ns'']\<rparr>
      \<lparr>Namespace = ''ns'', Key = ''key1''\<rparr>
    = (None,
       \<lparr>db = [(key \<lparr>Namespace = ''ns'', Key = ''zzz''\<rparr> \<lparr>Unix = 100, Nanosecond = 0\<rparr> 4,
               ''wxyz''),
              (namespacePrefix @ ''ns'', [CHR 0x01])],
         namespaces = [''ns'']\<rparr>)"
proof -
  let ?r = "\<lparr>Namespace = ''ns'', Key = ''key1''\<rparr>"
  let ?z = "\<lparr>Namespace = ''ns'', Key = ''zzz''\<rparr>"
  let ?t1 = "\<lparr>Unix = 100, Nanosecond = 0\<rparr>"
  let ?t2 = "\<lparr>Unix = 200, Nanosecond = 0\<rparr>"
  let ?rest = "[(key ?z ?t1 4, ''wxyz''), (namespacePrefix @ ''ns'', [CHR 0x01])]"
  let ?b1 = "\<lparr>db = (key ?r ?t1 10, ''1234567890'') # (key ?r ?t2 3, ''abc'') # ?rest,
              namespaces = [''ns'']\<rparr>"
  let ?b2 = "\<lparr>db = ?rest, namespaces = [''ns'']\<rparr>"
  have z: "\<not> prefix (keyPrefix ?r) (key ?z ?t1 4)"
    by (simp add: key_parts keyPrefix_def blobPrefix_def del: be_bytes.simps)
  have f: "filter (\<lambda>kv. \<not> prefix (keyPrefix ?r) (fst kv)) (db ?b1) = ?rest"
    using z by (simp add: key_has_prefix marker_not_blob)
  have h: "\<forall>kv \<in> set (db ?b2). \<not> prefix (keyPrefix ?r) (fst kv)"
    using z by (simp add: marker_not_blob)
  note th1 = Delete_removes_all_versions [of ?b1 ?r]
  note th2 = Delete_removes_all_versions [of ?b2 ?r]
  have a: "Delete ?b1 ?r = (None, ?b2)"
    using th1 [THEN conjunct1] unfolding f by simp
  have b: "Open (snd (Delete ?b1 ?r)) ?r = Inl MissingBlob"
    by (rule th1 [THEN conjunct2, THEN conjunct1])
  have c: "Delete ?b2 ?r = (None, ?b2)"
    using th2 [THEN conjunct2, THEN conjunct2] h by blast
  from a b c show ?thesis by (intro conjI)
qed

section \<open>Trash and restore\<close>

lemma key_rest: "key ref now n = blobPrefix @ drop 5 (key ref now n)"
  by (simp add: key_def blobPrefix_def Let_def)

lemma partition_facts:
  "blobPrefix @ a \<noteq> trashPrefix @ b" "trashPrefix @ a \<noteq> blobPrefix @ b"
  "blobPrefix @ a \<noteq> namespacePrefix @ b" "namespacePrefix @ a \<noteq> blobPrefix @ b"
  "trashPrefix @ a \<noteq> namespacePrefix @ b" "namespacePrefix @ a \<noteq> trashPrefix @ b"
  "namespacePrefix @ a < trashPrefix" "\<not> trashPrefix @ a \<le> namespacePrefix @ b"
  "namespacePrefix @ a \<le> trashPrefix @ b"
  "\<not> prefix trashPrefix (namespacePrefix @ a)" "prefix trashPrefix (trashPrefix @ a)"
  "drop 5 (blobPrefix @ a) = a" "drop (length trashPrefix) (trashPrefix @ a) = a"
  "\<not> prefix (keyPrefix r) (trashPrefix @ a)"
  "blobPrefix \<noteq> trashPrefix" "trashPrefix \<noteq> blobPrefix"
  "length blobPrefix = 5" "length trashPrefix = 5"
  "drop 5 blobPrefix = []" "drop 5 trashPrefix = []"
  by (simp_all add: blobPrefix_def trashPrefix_def namespacePrefix_def keyPrefix_def)

lemma Trash_single:
  assumes "prefix (keyPrefix ref) (blobPrefix @ rest)"
  shows "Trash \<lparr>db = [(blobPrefix @ rest, v), (namespacePrefix @ x, m)], namespaces = nss\<rparr> ref ts
     = (None, \<lparr>db = [(trashPrefix @ rest, v), (namespacePrefix @ x, m)], namespaces = nss\<rparr>)"
proof -
  let ?p = "keyPrefix ref"
  let ?d = "[(blobPrefix @ rest, v), (namespacePrefix @ x, m)]"
  let ?txn = "\<lparr>update = True, snapshot = ?d, pendingWrites = []\<rparr>"
  have it: "NewIterator ?txn (Some ?p) = [(blobPrefix @ rest, v)]"
    unfolding NewIterator_Update_prefix using assms by (simp add: marker_not_blob)
  have seek: "it_Seek [(blobPrefix @ rest, v)] ?p = [(blobPrefix @ rest, v)]"
    using assms by (intro it_Seek_prefix) simp
  have loop: "Trash_loop ?p [(blobPrefix @ rest, v)] ?txn
     = (None, (), ?txn\<lparr>pendingWrites := [(blobPrefix @ rest, None),
                                            (trashPrefix @ rest, Some v)]\<rparr>)"
    using assms by (simp add: txn_Set_def txn_Delete_def partition_facts Let_def)
  have com: "db_commit [(blobPrefix @ rest, None), (trashPrefix @ rest, Some v)] ?d
     = [(trashPrefix @ rest, v), (namespacePrefix @ x, m)]"
    by (simp add: db_commit_def partition_facts)
  have "Trash \<lparr>db = ?d, namespaces = nss\<rparr> ref ts
     = (case db_Update ?d (\<lambda>txn. Trash_loop ?p (it_Seek (NewIterator txn (Some ?p)) ?p) txn) of
          (err, u, d) \<Rightarrow> (err, \<lparr>db = d, namespaces = nss\<rparr>))"
    by (simp add: Trash_def Let_def)
  also have "db_Update ?d (\<lambda>txn. Trash_loop ?p (it_Seek (NewIterator txn (Some ?p)) ?p) txn)
     = (None, (), [(trashPrefix @ rest, v), (namespacePrefix @ x, m)])"
    unfolding db_Update_def it seek loop by (simp add: com)
  finally show ?thesis by simp
qed

lemma RestoreTrash_single:
  "RestoreTrash \<lparr>db = [(trashPrefix @ rest, v), (namespacePrefix @ x, m)], namespaces = nss\<rparr> arg
     = ([trashPrefix @ rest], None,
        \<lparr>db = [(blobPrefix @ rest, v), (namespacePrefix @ x, m)], namespaces = nss\<rparr>)"
proof -
  let ?d = "[(trashPrefix @ rest, v), (namespacePrefix @ x, m)]"
  let ?txn = "\<lparr>update = True, snapshot = ?d, pendingWrites = []\<rparr>"
  have it: "NewIterator ?txn None = [(namespacePrefix @ x, m), (trashPrefix @ rest, v)]"
    by (simp add: NewIterator_def db_commit_def partition_facts)
  have n: "\<not> trashPrefix @ rest < trashPrefix"
    by (rule prefix_not_less) simp
  have seek: "it_Seek [(namespacePrefix @ x, m), (trashPrefix @ rest, v)] trashPrefix
              = [(trashPrefix @ rest, v)]"
    using n by (simp add: it_Seek_def partition_facts)
  have mv: "move ?txn (trashPrefix @ rest) (blobPrefix @ rest)
     = (None, ?txn\<lparr>pendingWrites := [(trashPrefix @ rest, None),
                                        (blobPrefix @ rest, Some v)]\<rparr>)"
    by (simp add: move_def txn_Get_def txn_Set_def txn_Delete_def)
  have loop: "RestoreTrash_loop [(trashPrefix @ rest, v)] [] ?txn
     = (None, [trashPrefix @ rest],
        ?txn\<lparr>pendingWrites := [(trashPrefix @ rest, None), (blobPrefix @ rest, Some v)]\<rparr>)"
    by (simp add: partition_facts Let_def mv)
  have com: "db_commit [(trashPrefix @ rest, None), (blobPrefix @ rest, Some v)] ?d
     = [(blobPrefix @ rest, v), (namespacePrefix @ x, m)]"
    by (simp add: db_commit_def partition_facts)
  have "RestoreTrash \<lparr>db = ?d, namespaces = nss\<rparr> arg
     = (case db_Update ?d (\<lambda>txn. RestoreTrash_loop (it_Seek (NewIterator txn None) trashPrefix) [] txn) of
          (err, keys, d) \<Rightarrow> (keys, err, \<lparr>db = d, namespaces = nss\<rparr>))"
    by (simp add: RestoreTrash_def Let_def)
  also have "db_Update ?d (\<lambda>txn. RestoreTrash_loop (it_Seek (NewIterator txn None) trashPrefix) [] txn)
     = (None, [trashPrefix @ rest], [(blobPrefix @ rest, v), (namespacePrefix @ x, m)])"
    unfolding db_Update_def it seek loop by (simp add: com)
  finally show ?thesis by simp
qed

lemma Open_trashed:
  "Open \<lparr>db = [(trashPrefix @ rest, v), (namespacePrefix @ x, m)], namespaces = nss\<rparr> ref
     = Inl MissingBlob"
  by (simp add: Open_def NewReader_eq marker_not_blob partition_facts)

text \<open>
  C4. For every reference and every payload (written in one or several calls, within
  the capacity) committed in a fresh store: \<open>Trash\<close> returns no error and \<open>Open\<close> then
  fails with "missing blob"; \<open>RestoreTrash\<close>, with any namespace argument, then returns
  no error and the one trash key, the store is again the one before \<open>Trash\<close>, and
  \<open>Open\<close> followed by a read to the end returns the original bytes.
\<close>

theorem trash_restore_roundtrip:
  assumes "length (concat ps) \<le> 5000000"
  shows "fst (Trash (snd (write_session fresh_store ref (map DoWrite ps) now)) ref ts) = None
    \<and> Open (snd (Trash (snd (write_session fresh_store ref (map DoWrite ps) now)) ref ts)) ref
        = Inl MissingBlob
    \<and> fst (snd (RestoreTrash
          (snd (Trash (snd (write_session fresh_store ref (map DoWrite ps) now)) ref ts)) arg))
        = None
    \<and> length (fst (RestoreTrash
          (snd (Trash (snd (write_session fresh_store ref (map DoWrite ps) now)) ref ts)) arg))
        = 1
    \<and> snd (snd (RestoreTrash
          (snd (Trash (snd (write_session fresh_store ref (map DoWrite ps) now)) ref ts)) arg))
        = snd (write_session fresh_store ref (map DoWrite ps) now)
    \<and> read_back grow (snd (snd (RestoreTrash
          (snd (Trash (snd (write_session fresh_store ref (map DoWrite ps) now)) ref ts)) arg)))
          ref
        = Some (Inr (concat ps))"
proof -
  define rest where "rest = drop 5 (key ref now (int (length (concat ps))))"
  have k: "key ref now (int (length (concat ps))) = blobPrefix @ rest"
    unfolding rest_def by (rule key_rest)
  have p: "prefix (keyPrefix ref) (blobPrefix @ rest)"
    unfolding k [symmetric] by (rule key_has_prefix)
  let ?m = "namespacePrefix @ Namespace ref"
  let ?b1 = "\<lparr>db = [(blobPrefix @ rest, concat ps), (?m, [CHR 0x01])],
              namespaces = [Namespace ref]\<rparr>"
  let ?b2 = "\<lparr>db = [(trashPrefix @ rest, concat ps), (?m, [CHR 0x01])],
              namespaces = [Namespace ref]\<rparr>"
  have s: "snd (write_session fresh_store ref (map DoWrite ps) now) = ?b1"
    unfolding write_session_fresh [OF assms] k by simp
  have t: "Trash ?b1 ref ts = (None, ?b2)"
    using p by (rule Trash_single)
  have o: "Open ?b2 ref = Inl MissingBlob"
    by (rule Open_trashed)
  have r: "RestoreTrash ?b2 arg = ([trashPrefix @ rest], None, ?b1)"
    by (rule RestoreTrash_single)
  have rb: "read_back grow ?b1 ref = Some (Inr (concat ps))"
    unfolding k [symmetric] by (simp add: read_back_def Open_single rall_reads)
  show ?thesis
    unfolding s t snd_conv fst_conv o r rb by simp
qed

theorem trash_restore_roundtrip_witness:
  "length (concat [''1234567890'']) \<le> 5000000
   \<and> Open (snd (Trash (snd (write_session fresh_store \<lparr>Namespace = ''ns'', Key = ''key1''\<rparr>
                  (map DoWrite [''1234567890'']) \<lparr>Unix = 1700000000, Nanosecond = 0\<rparr>))
             \<lparr>Namespace = ''ns'', Key = ''key1''\<rparr> \<lparr>Unix = 1700000100, Nanosecond = 0\<rparr>))
        \<lparr>Namespace = ''ns'', Key = ''key1''\<rparr> = Inl MissingBlob
   \<and> read_back (\<lambda>c. 2 * c)
        (snd (snd (RestoreTrash
          (snd (Trash (snd (write_session fresh_store \<lparr>Namespace = ''ns'', Key = ''key1''\<rparr>
                  (map DoWrite [''1234567890'']) \<lparr>Unix = 1700000000, Nanosecond = 0\<rparr>))
             \<lparr>Namespace = ''ns'', Key = ''key1''\<rparr> \<lparr>Unix = 1700000100, Nanosecond = 0\<rparr>))
          ''ns'')))
        \<lparr>Namespace = ''ns'', Key = ''key1''\<rparr>
       = Some (Inr ''1234567890'')"
proof -
  have h: "length (concat [''1234567890'']) \<le> 5000000"
    by simp
  note th = trash_restore_roundtrip [OF h, of "\<lparr>Namespace = ''ns'', Key = ''key1''\<rparr>"
      "\<lparr>Unix = 1700000000, Nanosecond = 0\<rparr>" "\<lparr>Unix = 1700000100, Nanosecond = 0\<rparr>"
      "''ns''" "\<lambda>c. 2 * c"]
  have c: "concat [''1234567890''] = ''1234567890''" by simp
  from h th [THEN conjunct2, THEN conjunct1]
    th [THEN conjunct2, THEN conjunct2, THEN conjunct2, THEN conjunct2, THEN conjunct2]
  show ?thesis unfolding c by (intro conjI)
qed

section \<open>EmptyTrash\<close>

lemma EmptyTrash_single:
  "EmptyTrash \<lparr>db = [(trashPrefix @ rest, v), (namespacePrefix @ x, m)], namespaces = nss\<rparr>
       arg trashedBefore
     = (0, [trashPrefix @ rest], Some ErrReadOnlyTxn,
        \<lparr>db = [(trashPrefix @ rest, v), (namespacePrefix @ x, m)], namespaces = nss\<rparr>)"
proof -
  let ?d = "[(trashPrefix @ rest, v), (namespacePrefix @ x, m)]"
  let ?txn = "\<lparr>update = False, snapshot = ?d, pendingWrites = []\<rparr>"
  have it: "NewIterator ?txn None = [(namespacePrefix @ x, m), (trashPrefix @ rest, v)]"
    by (simp add: NewIterator_def partition_facts)
  have n: "\<not> trashPrefix @ rest < trashPrefix"
    by (rule prefix_not_less) simp
  have seek: "it_Seek [(namespacePrefix @ x, m), (trashPrefix @ rest, v)] trashPrefix
              = [(trashPrefix @ rest, v)]"
    using n by (simp add: it_Seek_def partition_facts)
  have loop: "EmptyTrash_loop [(trashPrefix @ rest, v)] [] ?txn
     = (Some ErrReadOnlyTxn, [trashPrefix @ rest], ?txn)"
    by (simp add: partition_facts Let_def txn_Delete_def)
  have "db_View ?d (\<lambda>txn. EmptyTrash_loop (it_Seek (NewIterator txn None) trashPrefix) [] txn)
     = (Some ErrReadOnlyTxn, [trashPrefix @ rest])"
    unfolding db_View_def it seek loop by simp
  then show ?thesis
    by (simp add: EmptyTrash_def Let_def)
qed

text \<open>
  C5. \<open>EmptyTrash\<close> runs its loop in \<open>db.View\<close>, a read-only transaction, where the
  other bulk operations use \<open>db.Update\<close>. On the store of the test after \<open>Trash\<close>
  (one trashed blob) the first \<open>txn.Delete\<close> is refused: \<open>EmptyTrash\<close> returns the
  error with the key it was about to delete, and the store, trash record included, is
  as before.
\<close>

theorem EmptyTrash_deletes_nothing:
  "EmptyTrash
     (snd (Trash (snd (write_session fresh_store \<lparr>Namespace = ''ns'', Key = ''key1''\<rparr>
                        [DoWrite ''1234567890''] \<lparr>Unix = 1700000000, Nanosecond = 0\<rparr>))
             \<lparr>Namespace = ''ns'', Key = ''key1''\<rparr> \<lparr>Unix = 1700000100, Nanosecond = 0\<rparr>))
     ''ns'' \<lparr>Unix = 1800000000, Nanosecond = 0\<rparr>
   = (0,
      [trashPrefix @ drop 5 (key \<lparr>Namespace = ''ns'', Key = ''key1''\<rparr>
                               \<lparr>Unix = 1700000000, Nanosecond = 0\<rparr> 10)],
      Some ErrReadOnlyTxn,
      \<lparr>db = [(trashPrefix @ drop 5 (key \<lparr>Namespace = ''ns'', Key = ''key1''\<rparr>
                                     \<lparr>Unix = 1700000000, Nanosecond = 0\<rparr> 10),
              ''1234567890''),
             (namespacePrefix @ ''ns'', [CHR 0x01])],
        namespaces = [''ns'']\<rparr>)"
proof -
  let ?r = "\<lparr>Namespace = ''ns'', Key = ''key1''\<rparr>"
  let ?t = "\<lparr>Unix = 1700000000, Nanosecond = 0\<rparr>"
  define rest where "rest = drop 5 (key ?r ?t 10)"
  have k: "key ?r ?t 10 = blobPrefix @ rest"
    unfolding rest_def by (rule key_rest)
  have p: "prefix (keyPrefix ?r) (blobPrefix @ rest)"
    unfolding k [symmetric] by (rule key_has_prefix)
  have h: "length (concat [''1234567890'']) \<le> 5000000" by simp
  have s: "snd (write_session fresh_store ?r [DoWrite ''1234567890''] ?t)
     = \<lparr>db = [(blobPrefix @ rest, ''1234567890''), (namespacePrefix @ ''ns'', [CHR 0x01])],
        namespaces = [''ns'']\<rparr>"
    using write_session_fresh [OF h, of ?r ?t] by (simp add: k)
  have t: "snd (Trash (snd (write_session fresh_store ?r [DoWrite ''1234567890''] ?t)) ?r
                  \<lparr>Unix = 1700000100, Nanosecond = 0\<rparr>)
     = \<lparr>db = [(trashPrefix @ rest, ''1234567890''), (namespacePrefix @ ''ns'', [CHR 0x01])],
        namespaces = [''ns'']\<rparr>"
    unfolding s Trash_single [OF p] by simp
  have e: "EmptyTrash
     (snd (Trash (snd (write_session fresh_store ?r [DoWrite ''1234567890''] ?t)) ?r
             \<lparr>Unix = 1700000100, Nanosecond = 0\<rparr>))
     ''ns'' \<lparr>Unix = 1800000000, Nanosecond = 0\<rparr>
   = (0, [trashPrefix @ rest], Some ErrReadOnlyTxn,
      \<lparr>db = [(trashPrefix @ rest, ''1234567890''), (namespacePrefix @ ''ns'', [CHR 0x01])],
        namespaces = [''ns'']\<rparr>)"
    unfolding t by (rule EmptyTrash_single)
  show ?thesis
    using e unfolding rest_def .
qed

end
